theory Spec2Isabelle
  imports Main "HOL-Library.Char_ord" "HOL-Library.List_Lexorder" "HOL-Library.AList"
begin

text \<open>
  A model of \<open>pypicache.disk.DiskPackageStore\<close>: the store of package files under
  \<open>prefix/packages/<first letter>/<package>/<file>\<close>, with its five methods
  \<open>get_file_path\<close>, \<open>list_files\<close>, \<open>list_packages\<close>, \<open>get_file\<close> and
  \<open>add_file\<close>.  The methods call the Python 2 standard library (\<open>os.path\<close>,
  \<open>os.walk\<close>, \<open>os.makedirs\<close>, \<open>glob\<close>, \<open>open\<close>); these functions are modelled
  first, over a file system that is a tree of directories and regular files.
\<close>

section \<open>Strings and POSIX path names\<close>

text \<open>
  Package names, file names, path names and file contents are Python 2 byte strings
  (\<open>str\<close>): lists of characters, compared bytewise.  \<open>str.lower()\<close> maps the
  ASCII letters \<open>A\<close>..\<open>Z\<close> to \<open>a\<close>..\<open>z\<close> and leaves every other byte alone.
\<close>

type_synonym bytes = string

definition lower_char :: "char \<Rightarrow> char" where
  "lower_char c =
     (if CHR ''A'' \<le> c \<and> c \<le> CHR ''Z'' then char_of (of_char c + (32::nat)) else c)"

definition lower :: "string \<Rightarrow> string" where
  "lower s = map lower_char s"

text \<open>\<open>s.rstrip('/')\<close>.\<close>

definition rstrip_slash :: "string \<Rightarrow> string" where
  "rstrip_slash s = rev (dropWhile (\<lambda>c. c = CHR ''/'') (rev s))"

text \<open>
  \<open>posixpath.join(a, b)\<close>: an absolute \<open>b\<close> replaces \<open>a\<close>; otherwise the two are
  concatenated, with one slash between them unless \<open>a\<close> is empty or ends in a slash.
\<close>

definition os_path_join :: "string \<Rightarrow> string \<Rightarrow> string" where
  "os_path_join a b =
     (if b \<noteq> [] \<and> hd b = CHR ''/'' then b
      else if a = [] \<or> last a = CHR ''/'' then a @ b
      else a @ ''/'' @ b)"

text \<open>
  \<open>posixpath.split(p)\<close>: the tail is everything after the last slash; the head is
  everything up to and including it, with its trailing slashes removed unless it
  consists of slashes only.  \<open>dirname\<close> and \<open>basename\<close> are its two halves.
\<close>

definition os_path_split :: "string \<Rightarrow> string \<times> string" where
  "os_path_split p =
     (let tail = rev (takeWhile (\<lambda>c. c \<noteq> CHR ''/'') (rev p));
          head = rev (dropWhile (\<lambda>c. c \<noteq> CHR ''/'') (rev p))
      in (if head \<noteq> [] \<and> head \<noteq> replicate (length head) (CHR ''/'')
          then rstrip_slash head else head, tail))"

definition os_path_dirname :: "string \<Rightarrow> string" where
  "os_path_dirname p = fst (os_path_split p)"

definition os_path_basename :: "string \<Rightarrow> string" where
  "os_path_basename p = snd (os_path_split p)"

text \<open>\<open>p.split('/')\<close>: the components of a path name, empty ones included.\<close>

fun split_slash :: "string \<Rightarrow> string list" where
  "split_slash [] = [[]]"
| "split_slash (c # cs) =
     (if c = CHR ''/'' then [] # split_slash cs
      else (case split_slash cs of w # ws \<Rightarrow> (c # w) # ws | [] \<Rightarrow> [[c]]))"

section \<open>Errors\<close>

text \<open>
  The exceptions the store can raise.  \<open>NotFound\<close> and \<open>NotOverwritingError\<close>
  are the classes of \<open>pypicache.exceptions\<close> and carry their message; the others are
  Python's own.  Of an \<open>OSError\<close> the code only ever asks whether its \<open>errno\<close> is
  \<open>EEXIST\<close>; \<open>ENOENT\<close> stands for every other value.
\<close>

datatype errno = EEXIST | ENOENT

datatype error =
    IndexError
  | IOError
  | OSError errno
  | NotFound string
  | NotOverwritingError string

section \<open>The file system\<close>

text \<open>
  The file system the process sees is a tree of regular files and directories; a
  directory is the list of its entries in the order \<open>os.listdir\<close> reports them.
  The tree is rooted at the directory from which path names are resolved (the root
  directory, which is also the working directory).  Symbolic links, permissions and
  device errors are outside the model.  A location in the tree is the list of entry
  names leading to it from the root.

  The operating system and the interpreter set limits that the tree does not show.
  Python refuses a path name that holds a NUL byte with a \<open>TypeError\<close>, before any
  look-up; the system refuses a path name of \<open>PATH_MAX\<close> bytes or more and a
  component of more than \<open>NAME_MAX\<close> bytes; \<open>os.walk\<close> and \<open>os.makedirs\<close>, which
  call themselves once for every directory level, end with a \<open>RuntimeError\<close> at
  Python's recursion limit.  The functions of this section are the library functions
  on path names and trees within these limits.  The limits are stated in the section
  on the limits of the system below, and the properties that depend on them assume
  them there.
\<close>

datatype node = File bytes | Dir "(string \<times> node) list"

fun lookup :: "node \<Rightarrow> string list \<Rightarrow> node option" where
  "lookup n [] = Some n"
| "lookup (File c) (x # xs) = None"
| "lookup (Dir es) (x # xs) =
     (case map_of es x of None \<Rightarrow> None | Some m \<Rightarrow> lookup m xs)"

definition is_dir_at :: "node \<Rightarrow> string list \<Rightarrow> bool" where
  "is_dir_at fs p = (case lookup fs p of Some (Dir es) \<Rightarrow> True | _ \<Rightarrow> False)"

definition is_file_at :: "node \<Rightarrow> string list \<Rightarrow> bool" where
  "is_file_at fs p = (case lookup fs p of Some (File c) \<Rightarrow> True | _ \<Rightarrow> False)"

text \<open>
  \<open>put fs p n\<close> stores node \<open>n\<close> at location \<open>p\<close>: it replaces the entry there, or
  appends a new entry to the parent directory.  Nothing happens when the parent is
  missing or is not a directory.
\<close>

fun put :: "node \<Rightarrow> string list \<Rightarrow> node \<Rightarrow> node" where
  "put n [] new = new"
| "put (File c) (x # xs) new = File c"
| "put (Dir es) (x # xs) new =
     (case map_of es x of
        None \<Rightarrow> (if xs = [] then Dir (es @ [(x, new)]) else Dir es)
      | Some m \<Rightarrow> Dir (AList.update x (put m xs new) es))"

text \<open>
  Path resolution.  \<open>walk_dir fs cur cs\<close> follows the components \<open>cs\<close> from the
  directory at \<open>cur\<close>; every component must lead to a directory.  An empty component
  and \<open>.\<close> stay where they are, \<open>..\<close> goes to the parent (the root is its own parent).
\<close>

fun walk_dir :: "node \<Rightarrow> string list \<Rightarrow> string list \<Rightarrow> string list option" where
  "walk_dir fs cur [] = (if is_dir_at fs cur then Some cur else None)"
| "walk_dir fs cur (c # cs) =
     (if \<not> is_dir_at fs cur then None
      else if c = [] \<or> c = ''.'' then walk_dir fs cur cs
      else if c = ''..'' then walk_dir fs (butlast cur) cs
      else walk_dir fs (cur @ [c]) cs)"

text \<open>
  \<open>resolve fs path\<close> is the location a path name denotes, when all the directories
  leading to it exist.  A path whose last component is a name need not exist itself;
  a path that ends in a slash, in \<open>.\<close> or in \<open>..\<close> must be an existing directory.
\<close>

definition resolve :: "node \<Rightarrow> string \<Rightarrow> string list option" where
  "resolve fs path =
     (if path = [] then None
      else let cs = split_slash path in
        if last cs = [] \<or> last cs = ''.'' \<or> last cs = ''..'' then walk_dir fs [] cs
        else map_option (\<lambda>d. d @ [last cs]) (walk_dir fs [] (butlast cs)))"

definition os_path_exists :: "node \<Rightarrow> string \<Rightarrow> bool" where
  "os_path_exists fs path =
     (case resolve fs path of None \<Rightarrow> False | Some p \<Rightarrow> lookup fs p \<noteq> None)"

definition os_path_isdir :: "node \<Rightarrow> string \<Rightarrow> bool" where
  "os_path_isdir fs path =
     (case resolve fs path of None \<Rightarrow> False | Some p \<Rightarrow> is_dir_at fs p)"

definition os_path_isfile :: "node \<Rightarrow> string \<Rightarrow> bool" where
  "os_path_isfile fs path =
     (case resolve fs path of None \<Rightarrow> False | Some p \<Rightarrow> is_file_at fs p)"

text \<open>
  \<open>os.path.exists\<close>, \<open>os.path.isdir\<close> and \<open>os.path.isfile\<close> above, and
  \<open>open(path, "rb").read()\<close>: the bytes of a regular file, or \<open>IOError\<close>.  These are
  the functions on a path name without NUL byte and shorter than \<open>PATH_MAX\<close>; on a
  path name with a NUL byte Python 2 raises \<open>TypeError\<close> from each of them.
\<close>

definition open_rb :: "node \<Rightarrow> string \<Rightarrow> error + bytes" where
  "open_rb fs path =
     (case resolve fs path of
        None \<Rightarrow> Inl IOError
      | Some p \<Rightarrow> (case lookup fs p of Some (File c) \<Rightarrow> Inr c | _ \<Rightarrow> Inl IOError))"

text \<open>
  \<open>open(path, "wb")\<close> followed by \<open>write(data)\<close>: creates or truncates the regular
  file and stores the data; \<open>IOError\<close> when the parent directory is missing or the
  path is a directory.  The result is the outcome and the file system afterwards.
  The system also refuses, with \<open>IOError\<close>, a path name or a last component that is
  too long; the model has no such bound, so a call that succeeds in the model can
  fail on the system, never the other way round.
\<close>

definition open_wb_write :: "node \<Rightarrow> string \<Rightarrow> bytes \<Rightarrow> (error + unit) \<times> node" where
  "open_wb_write fs path data =
     (case resolve fs path of
        None \<Rightarrow> (Inl IOError, fs)
      | Some p \<Rightarrow>
          (case lookup fs p of
             Some (Dir es) \<Rightarrow> (Inl IOError, fs)
           | _ \<Rightarrow> (Inr (), put fs p (File data))))"

text \<open>
  \<open>os.mkdir(path)\<close>: creates one empty directory.  Trailing slashes are ignored;
  \<open>EEXIST\<close> when the path exists already, another \<open>OSError\<close> when its parent does not.
\<close>

definition os_mkdir :: "node \<Rightarrow> string \<Rightarrow> (error + unit) \<times> node" where
  "os_mkdir fs path =
     (case resolve fs (if rstrip_slash path = [] then path else rstrip_slash path) of
        None \<Rightarrow> (Inl (OSError ENOENT), fs)
      | Some p \<Rightarrow>
          (case lookup fs p of
             None \<Rightarrow> (Inr (), put fs p (Dir []))
           | Some n \<Rightarrow> (Inl (OSError EEXIST), fs)))"

text \<open>
  \<open>os.makedirs(name)\<close>, as the standard library writes it: split off the last
  component (twice when the name ends in a slash); when the head is missing, create
  it recursively, tolerating \<open>EEXIST\<close> from that call only; then create the
  directory itself, unless the last component is \<open>.\<close>.  A failed call keeps the
  directories it created before failing.
\<close>

definition makedirs_parts :: "string \<Rightarrow> string \<times> string" where
  "makedirs_parts name =
     (if snd (os_path_split name) = [] then os_path_split (fst (os_path_split name))
      else os_path_split name)"

lemma length_rstrip_slash: "length (rstrip_slash s) \<le> length s"
  by (simp add: rstrip_slash_def) (metis length_dropWhile_le length_rev)

lemma length_os_path_split:
  "length (fst (os_path_split p)) + length (snd (os_path_split p)) \<le> length p"
proof -
  let ?t = "takeWhile (\<lambda>c. c \<noteq> CHR ''/'') (rev p)"
  let ?d = "dropWhile (\<lambda>c. c \<noteq> CHR ''/'') (rev p)"
  have "length ?t + length ?d = length p"
    by (metis length_append length_rev takeWhile_dropWhile_id)
  moreover have "length (fst (os_path_split p)) \<le> length ?d"
    using length_rstrip_slash [of "rev ?d"] by (simp add: os_path_split_def Let_def)
  moreover have "length (snd (os_path_split p)) = length ?t"
    by (simp add: os_path_split_def Let_def)
  ultimately show ?thesis by linarith
qed

lemma makedirs_parts_shorter:
  "snd (makedirs_parts name) \<noteq> [] \<Longrightarrow> length (fst (makedirs_parts name)) < length name"
proof -
  assume t: "snd (makedirs_parts name) \<noteq> []"
  then have "0 < length (snd (makedirs_parts name))" by simp
  moreover have "length (fst (makedirs_parts name)) + length (snd (makedirs_parts name))
                   \<le> length name"
    using length_os_path_split [of name] length_os_path_split [of "fst (os_path_split name)"]
    by (simp add: makedirs_parts_def)
  ultimately show ?thesis by linarith
qed

function os_makedirs :: "node \<Rightarrow> string \<Rightarrow> (error + unit) \<times> node" where
  "os_makedirs fs name =
     (if fst (makedirs_parts name) \<noteq> [] \<and> snd (makedirs_parts name) \<noteq> []
         \<and> \<not> os_path_exists fs (fst (makedirs_parts name))
      then
        (case os_makedirs fs (fst (makedirs_parts name)) of
           (Inl e, fs1) \<Rightarrow>
             if e \<noteq> OSError EEXIST then (Inl e, fs1)
             else if snd (makedirs_parts name) = ''.'' then (Inr (), fs1)
             else os_mkdir fs1 name
         | (Inr u, fs1) \<Rightarrow>
             if snd (makedirs_parts name) = ''.'' then (Inr (), fs1)
             else os_mkdir fs1 name)
      else os_mkdir fs name)"
  by pat_completeness auto
termination
  by (relation "measure (\<lambda>(fs, name). length name)") (auto simp: makedirs_parts_shorter)

declare os_makedirs.simps [simp del]

text \<open>
  \<open>os.listdir(path)\<close>: the entry names of a directory, in directory order.
\<close>

definition os_listdir :: "node \<Rightarrow> string \<Rightarrow> string list option" where
  "os_listdir fs path =
     (case resolve fs path of
        None \<Rightarrow> None
      | Some p \<Rightarrow> (case lookup fs p of Some (Dir es) \<Rightarrow> Some (map fst es) | _ \<Rightarrow> None))"

text \<open>
  \<open>os.walk(top, topdown=False)\<close>: the directories from \<open>topdir\<close> down, children before
  parents, each as the triple of its path name, its subdirectories and its other
  entries.  Nothing is reported when \<open>topdir\<close> cannot be listed.  This is the walk
  of a directory within the limits stated below (\<open>tree_within_limits\<close>): on a deeper
  tree Python ends the walk with a \<open>RuntimeError\<close>, and beyond \<open>PATH_MAX\<close> the
  system no longer lists the directories.
\<close>

fun is_Dir :: "node \<Rightarrow> bool" where
  "is_Dir (Dir es) = True"
| "is_Dir (File c) = False"

fun walk_node :: "string \<Rightarrow> node \<Rightarrow> (string \<times> string list \<times> string list) list" where
  "walk_node topdir (File c) = []"
| "walk_node topdir (Dir es) =
     concat (map (\<lambda>e. if is_Dir (snd e) then walk_node (os_path_join topdir (fst e)) (snd e)
                      else [])
               es)
     @ [(topdir, map fst (filter (\<lambda>e. is_Dir (snd e)) es),
              map fst (filter (\<lambda>e. \<not> is_Dir (snd e)) es))]"

definition os_walk :: "node \<Rightarrow> string \<Rightarrow> (string \<times> string list \<times> string list) list" where
  "os_walk fs topdir =
     (case resolve fs topdir of
        None \<Rightarrow> []
      | Some p \<Rightarrow> (case lookup fs p of None \<Rightarrow> [] | Some n \<Rightarrow> walk_node topdir n))"

text \<open>
  \<open>fnmatch\<close> for patterns made of \<open>*\<close>, \<open>?\<close> and literal characters
  (character classes in brackets are not modelled: the only pattern the store uses is
  \<open>prefix/packages/?/*\<close>, and the properties assume a \<open>prefix\<close> without \<open>[\<close>), and
  \<open>glob.glob1(dirname, pattern)\<close>: the entries of a directory that match, those
  starting with a dot left out unless the pattern starts with one.  \<open>take 1 x\<close>
  stands for \<open>x[0]\<close>; the patterns used and the names listed are never empty.
\<close>

fun fnmatch :: "string \<Rightarrow> string \<Rightarrow> bool" where
  "fnmatch [] [] = True"
| "fnmatch [] (c # cs) = False"
| "fnmatch (p # ps) [] = (p = CHR ''*'' \<and> fnmatch ps [])"
| "fnmatch (p # ps) (c # cs) =
     (if p = CHR ''*'' then fnmatch ps (c # cs) \<or> fnmatch (p # ps) cs
      else (p = CHR ''?'' \<or> p = c) \<and> fnmatch ps cs)"

definition glob1 :: "node \<Rightarrow> string \<Rightarrow> string \<Rightarrow> string list" where
  "glob1 fs dirname pattern =
     (case os_listdir fs (if dirname = [] then ''.'' else dirname) of
        None \<Rightarrow> []
      | Some names \<Rightarrow>
          filter (fnmatch pattern)
            (if take 1 pattern \<noteq> ''.'' then filter (\<lambda>x. take 1 x \<noteq> ''.'') names
             else names))"

text \<open>
  \<open>glob.glob(pathname)\<close>, as the standard library writes it: a path name without
  wildcards matches itself when it exists; otherwise the directory part is expanded
  first (recursively when it holds wildcards itself) and the last component is
  matched in each of the directories found.  The store calls it with
  \<open>prefix/packages/?/*\<close>; the statements about its result assume a storage root
  \<open>prefix\<close> without wildcard characters.
\<close>

definition has_magic :: "string \<Rightarrow> bool" where
  "has_magic s = (set s \<inter> {CHR ''*'', CHR ''?'', CHR ''[''} \<noteq> {})"

definition glob0 :: "node \<Rightarrow> string \<Rightarrow> string \<Rightarrow> string list" where
  "glob0 fs dirname basename =
     (if basename = [] then (if os_path_isdir fs dirname then [basename] else [])
      else if os_path_exists fs (os_path_join dirname basename) then [basename] else [])"

lemma os_path_split_fst_shorter:
  "fst (os_path_split p) \<noteq> p \<Longrightarrow> length (fst (os_path_split p)) < length p"
proof -
  assume ne: "fst (os_path_split p) \<noteq> p"
  let ?t = "takeWhile (\<lambda>c. c \<noteq> CHR ''/'') (rev p)"
  let ?d = "dropWhile (\<lambda>c. c \<noteq> CHR ''/'') (rev p)"
  have le: "length (fst (os_path_split p)) + length (snd (os_path_split p)) \<le> length p"
    by (rule length_os_path_split)
  have p: "p = rev ?d @ rev ?t"
    by (metis rev_append rev_rev_ident takeWhile_dropWhile_id)
  show ?thesis
  proof (cases "?t = []")
    case False
    then have "0 < length (snd (os_path_split p))"
      by (simp add: os_path_split_def Let_def)
    with le show ?thesis by linarith
  next
    case True
    with p have pd: "rev ?d = p" by simp
    have "length (rstrip_slash p) < length p"
    proof (rule ccontr)
      assume "\<not> length (rstrip_slash p) < length p"
      then have "length (dropWhile (\<lambda>c. c = CHR ''/'') (rev p)) = length (rev p)"
        using length_rstrip_slash [of p] by (simp add: rstrip_slash_def)
      then have "dropWhile (\<lambda>c. c = CHR ''/'') (rev p) = rev p"
        by (metis append_eq_conv_conj length_append add_left_cancel length_0_conv
              takeWhile_dropWhile_id append_Nil add.right_neutral add.commute)
      then have "rstrip_slash p = p" by (simp add: rstrip_slash_def)
      with ne pd show False by (simp add: os_path_split_def Let_def split: if_splits)
    qed
    with ne pd show ?thesis by (simp add: os_path_split_def Let_def split: if_splits)
  qed
qed

function glob :: "node \<Rightarrow> string \<Rightarrow> string list" where
  "glob fs pathname =
     (if \<not> has_magic pathname then (if os_path_exists fs pathname then [pathname] else [])
      else if fst (os_path_split pathname) = []
      then glob1 fs ''.'' (snd (os_path_split pathname))
      else
        concat (map (\<lambda>dirname.
                       map (os_path_join dirname)
                         (if has_magic (snd (os_path_split pathname))
                          then glob1 fs dirname (snd (os_path_split pathname))
                          else glob0 fs dirname (snd (os_path_split pathname))))
                  (if fst (os_path_split pathname) \<noteq> pathname
                      \<and> has_magic (fst (os_path_split pathname))
                   then glob fs (fst (os_path_split pathname))
                   else [fst (os_path_split pathname)])))"
  by pat_completeness auto
termination
  by (relation "measure (\<lambda>(fs, pathname). length pathname)")
     (auto simp: os_path_split_fst_shorter)

declare glob.simps [simp del]

section \<open>The store\<close>

text \<open>
  \<open>DiskPackageStore.get_file_path\<close>.  \<open>package[0]\<close> raises \<open>IndexError\<close> on the
  empty string.  The function takes no file system and returns none.
\<close>

definition get_file_path :: "string \<Rightarrow> string \<Rightarrow> string \<Rightarrow> error + string" where
  "get_file_path prefix package filename =
     (case package of
        [] \<Rightarrow> Inl IndexError
      | firstletter # rest \<Rightarrow>
          Inr (os_path_join prefix
                 (''packages/'' @ [firstletter] @ ''/'' @ package @ ''/'' @ filename)))"

text \<open>
  \<open>DiskPackageStore.list_packages\<close>: the sorted matches of
  \<open>prefix/packages/?/*\<close> that are directories, by their last component.
\<close>

definition list_packages :: "string \<Rightarrow> node \<Rightarrow> string list" where
  "list_packages prefix fs =
     map os_path_basename
       (filter (os_path_isdir fs) (sort (glob fs (os_path_join prefix ''packages/?/*''))))"

text \<open>
  The records \<open>list_files\<close> yields.  The checksum is
  \<open>hashlib.md5(data).hexdigest()\<close>, a parameter \<open>md5hex\<close> of the model.
\<close>

record file_record =
  rec_package :: string
  rec_firstletter :: string
  rec_filename :: string
  rec_md5 :: string

text \<open>
  A generator is modelled by what it does when run to its end: the items it yields
  and the exception that ends it, if any.  The two loops at the end of
  \<open>list_files\<close>: over the triples of \<open>os.walk\<close>, and over the files of one triple.
\<close>

fun read_files ::
  "(bytes \<Rightarrow> string) \<Rightarrow> node \<Rightarrow> string \<Rightarrow> string \<Rightarrow> string \<Rightarrow> string list
   \<Rightarrow> file_record list \<times> error option" where
  "read_files md5hex fs package firstletter root [] = ([], None)"
| "read_files md5hex fs package firstletter root (filename # files) =
     (case open_rb fs (os_path_join root filename) of
        Inl e \<Rightarrow> ([], Some e)
      | Inr data \<Rightarrow>
          (case read_files md5hex fs package firstletter root files of
             (rs, err) \<Rightarrow>
               (\<lparr>rec_package = package, rec_firstletter = firstletter,
                 rec_filename = filename, rec_md5 = md5hex data\<rparr> # rs, err)))"

fun walk_records ::
  "(bytes \<Rightarrow> string) \<Rightarrow> node \<Rightarrow> string \<Rightarrow> string
   \<Rightarrow> (string \<times> string list \<times> string list) list \<Rightarrow> file_record list \<times> error option" where
  "walk_records md5hex fs package firstletter [] = ([], None)"
| "walk_records md5hex fs package firstletter ((root, dirs, files) # ts) =
     (case read_files md5hex fs package firstletter root files of
        (rs, Some e) \<Rightarrow> (rs, Some e)
      | (rs, None) \<Rightarrow>
          (case walk_records md5hex fs package firstletter ts of
             (rs', err) \<Rightarrow> (rs @ rs', err)))"

text \<open>
  \<open>DiskPackageStore.list_files\<close>.  The result is \<open>None\<close> when the recursion never
  ends (Python gives up with a \<open>RuntimeError\<close> at its recursion limit).
\<close>

partial_function (option) list_files ::
  "(bytes \<Rightarrow> string) \<Rightarrow> string \<Rightarrow> node \<Rightarrow> string \<Rightarrow> (file_record list \<times> error option) option"
  where
  "list_files md5hex prefix fs package =
     (case package of
        [] \<Rightarrow> Some ([], Some IndexError)
      | a # rest \<Rightarrow>
          if \<not> os_path_isdir fs (os_path_join prefix (''packages/'' @ [a] @ ''/'' @ package))
          then
            (case find (\<lambda>my_package. lower my_package = lower package)
                    (list_packages prefix fs) of
               Some my_package \<Rightarrow> list_files md5hex prefix fs my_package
             | None \<Rightarrow>
                 Some (walk_records md5hex fs package [a]
                         (os_walk fs (os_path_join prefix
                                        (''packages/'' @ [a] @ ''/'' @ package)))))
          else
            Some (walk_records md5hex fs package [a]
                    (os_walk fs (os_path_join prefix
                                   (''packages/'' @ [a] @ ''/'' @ package)))))"

declare list_files.simps [code]

text \<open>
  The search loops of \<open>get_file\<close>: the first stored package, in the order of
  \<open>list_packages\<close>, whose lower-cased name is that of the request and that lists a
  file whose lower-cased name is that of the request.  The result is the pair to
  retry with, \<open>Inr None\<close> when the loops end without one, an exception raised by
  \<open>list_files\<close> on the way, or \<open>None\<close> when \<open>list_files\<close> does not return.
\<close>

fun fish ::
  "(bytes \<Rightarrow> string) \<Rightarrow> string \<Rightarrow> node \<Rightarrow> string \<Rightarrow> string \<Rightarrow> string list
   \<Rightarrow> (error + (string \<times> string) option) option" where
  "fish md5hex prefix fs package filename [] = Some (Inr None)"
| "fish md5hex prefix fs package filename (my_package # rest) =
     (if lower package = lower my_package then
        (case list_files md5hex prefix fs my_package of
           None \<Rightarrow> None
         | Some (recs, err) \<Rightarrow>
             (case find (\<lambda>fileinfo. lower (rec_filename fileinfo) = lower filename) recs of
                Some fileinfo \<Rightarrow> Some (Inr (Some (my_package, rec_filename fileinfo)))
              | None \<Rightarrow>
                  (case err of
                     Some e \<Rightarrow> Some (Inl e)
                   | None \<Rightarrow> fish md5hex prefix fs package filename rest)))
      else fish md5hex prefix fs package filename rest)"

text \<open>
  \<open>DiskPackageStore.get_file\<close>.  The handle it returns is modelled by the bytes read
  from it; \<open>None\<close> again means that the recursion never ends.
\<close>

partial_function (option) get_file ::
  "(bytes \<Rightarrow> string) \<Rightarrow> string \<Rightarrow> node \<Rightarrow> string \<Rightarrow> string \<Rightarrow> (error + bytes) option"
  where
  "get_file md5hex prefix fs package filename =
     (case get_file_path prefix package filename of
        Inl e \<Rightarrow> Some (Inl e)
      | Inr path \<Rightarrow>
          (case open_rb fs path of
             Inr data \<Rightarrow> Some (Inr data)
           | Inl e \<Rightarrow>
               (case fish md5hex prefix fs package filename (list_packages prefix fs) of
                  None \<Rightarrow> None
                | Some (Inl e') \<Rightarrow> Some (Inl e')
                | Some (Inr None) \<Rightarrow>
                    Some (Inl (NotFound (''Package '' @ package @ '': '' @ filename
                                         @ '' not found in '' @ path)))
                | Some (Inr (Some (my_package, my_filename))) \<Rightarrow>
                    get_file md5hex prefix fs my_package my_filename)))"

declare get_file.simps [code]

text \<open>
  \<open>DiskPackageStore.add_file\<close>.  The content is a byte string or an object with a
  \<open>read\<close> method, which is then read to its end.
\<close>

datatype content = Str bytes | Readable bytes

fun materialize :: "content \<Rightarrow> bytes" where
  "materialize (Str data) = data"
| "materialize (Readable data) = data"

definition add_file ::
  "string \<Rightarrow> node \<Rightarrow> string \<Rightarrow> string \<Rightarrow> content \<Rightarrow> (error + unit) \<times> node" where
  "add_file prefix fs package filename content =
     (case get_file_path prefix package filename of
        Inl e \<Rightarrow> (Inl e, fs)
      | Inr path \<Rightarrow>
          if os_path_isfile fs path
          then (Inl (NotOverwritingError (''Not overwriting '' @ path)), fs)
          else
            (case (if \<not> os_path_isdir fs (os_path_dirname path)
                   then os_makedirs fs (os_path_dirname path) else (Inr (), fs)) of
               (Inl e, fs1) \<Rightarrow> (Inl e, fs1)
             | (Inr u, fs1) \<Rightarrow> open_wb_write fs1 path (materialize content)))"

section \<open>Well-formed file systems\<close>

text \<open>
  In a file system the entries of a directory have distinct names, and a name is
  a non-empty string without a slash other than \<open>.\<close> and \<open>..\<close>.
\<close>

definition valid_name :: "string \<Rightarrow> bool" where
  "valid_name n = (n \<noteq> [] \<and> CHR ''/'' \<notin> set n \<and> n \<noteq> ''.'' \<and> n \<noteq> ''..'')"

fun wf_node :: "node \<Rightarrow> bool" where
  "wf_node (File c) = True"
| "wf_node (Dir es) =
     (distinct (map fst es) \<and> (\<forall>e \<in> set es. valid_name (fst e) \<and> wf_node (snd e)))"

section \<open>Notions used in the statements\<close>


definition only_dirs_added :: "node \<Rightarrow> node \<Rightarrow> bool" where
  "only_dirs_added fs fs' =
     ((\<forall>q d. (lookup fs' q = Some (File d)) = (lookup fs q = Some (File d)))
      \<and> (\<forall>q. is_dir_at fs q \<longrightarrow> is_dir_at fs' q))"

text \<open>
  The location of the directory a path name denotes, the directory of a package
  (\<open>prefix/packages/<package[0]>/<package>\<close>), the directory that holds the shards,
  and the directories one level below the one-character entries of that directory,
  as pairs of the shard and the name.
\<close>

definition dir_location :: "node \<Rightarrow> string \<Rightarrow> string list option" where
  "dir_location fs path = (if path = [] then None else walk_dir fs [] (split_slash path))"

definition package_dir :: "string \<Rightarrow> string \<Rightarrow> string" where
  "package_dir prefix package =
     os_path_join prefix (''packages/'' @ take 1 package @ ''/'' @ package)"

definition packages_root :: "string \<Rightarrow> string" where
  "packages_root prefix = os_path_join prefix ''packages''"

definition shard_dirs :: "string \<Rightarrow> node \<Rightarrow> (string \<times> string) set" where
  "shard_dirs prefix fs =
     {(s, n). length s = 1 \<and> valid_name s \<and> valid_name n
        \<and> os_path_isdir fs (packages_root prefix @ ''/'' @ s @ ''/'' @ n)}"


text \<open>
  The directory of a package as a node of the tree, when it exists, and what a
  listing of it is to contain.  \<open>files_below n\<close> are the regular files below the
  directory \<open>n\<close>, each with its location relative to \<open>n\<close> and its content, those in
  subdirectories first (the order of a bottom-up walk).  \<open>file_records\<close> has one
  record for each of them: the package name, its first letter, the last component of
  the file's location and the checksum of its content.
\<close>

definition package_node :: "string \<Rightarrow> node \<Rightarrow> string \<Rightarrow> node option" where
  "package_node prefix fs package =
     (case dir_location fs (package_dir prefix package) of
        None \<Rightarrow> None
      | Some p \<Rightarrow> lookup fs p)"

fun file_data :: "node \<Rightarrow> bytes" where
  "file_data (File c) = c"
| "file_data (Dir es) = []"

fun files_below :: "node \<Rightarrow> (string list \<times> bytes) list" where
  "files_below (File c) = []"
| "files_below (Dir es) =
     concat (map (\<lambda>e. if is_Dir (snd e)
                      then map (\<lambda>(q, d). (fst e # q, d)) (files_below (snd e)) else [])
               es)
     @ map (\<lambda>e. ([fst e], file_data (snd e))) (filter (\<lambda>e. \<not> is_Dir (snd e)) es)"

definition file_records :: "(bytes \<Rightarrow> string) \<Rightarrow> string \<Rightarrow> node \<Rightarrow> file_record list" where
  "file_records md5hex package n =
     map (\<lambda>(q, d). \<lparr>rec_package = package, rec_firstletter = take 1 package,
                     rec_filename = last q, rec_md5 = md5hex d\<rparr>)
       (files_below n)"

section \<open>The limits of the system\<close>

text \<open>
  What the properties about reading assume of the names and of the store, so that
  the library functions behave as modelled above.

  A name or path handed to the store holds no NUL byte (\<open>has_nul\<close>).  A directory
  \<open>topdir\<close> is within the limits (\<open>tree_within_limits\<close>) when every path name built
  from \<open>topdir\<close> for an entry below it is shorter than \<open>path_max\<close>, the \<open>PATH_MAX\<close>
  of Linux, and the tree below it is at most \<open>walk_depth_max\<close> directory levels deep.
  \<open>longest n\<close> is the length of the longest path name of an entry below the
  directory \<open>n\<close>, relative to \<open>n\<close>, each component counted with the slash before it;
  \<open>height n\<close> counts the directory levels of \<open>n\<close>.  The bound on the depth is 500,
  half of the 1000 nested calls that Python allows by default, the other half being
  left to the caller of the store.  A store is within the limits (\<open>within_limits\<close>)
  when the directory \<open>prefix/packages\<close> is.  \<open>store_ok\<close> collects the assumptions
  on a store: a well-formed tree, a storage root without glob wildcard and without
  NUL byte, and a store within the limits.
\<close>

definition has_nul :: "string \<Rightarrow> bool" where
  "has_nul s = (CHR 0x00 \<in> set s)"

definition path_max :: nat where
  "path_max = 4096"

definition walk_depth_max :: nat where
  "walk_depth_max = 500"

fun height :: "node \<Rightarrow> nat" where
  "height (File c) = 0"
| "height (Dir es) = Suc (fold max (map (\<lambda>e. height (snd e)) es) 0)"

fun longest :: "node \<Rightarrow> nat" where
  "longest (File c) = 0"
| "longest (Dir es) = fold max (map (\<lambda>e. Suc (length (fst e) + longest (snd e))) es) 0"

definition tree_within_limits :: "node \<Rightarrow> string \<Rightarrow> bool" where
  "tree_within_limits fs topdir =
     (case dir_location fs topdir of
        None \<Rightarrow> True
      | Some p \<Rightarrow>
          (case lookup fs p of
             None \<Rightarrow> True
           | Some n \<Rightarrow> length topdir + longest n < path_max \<and> height n \<le> walk_depth_max))"

definition within_limits :: "string \<Rightarrow> node \<Rightarrow> bool" where
  "within_limits prefix fs = tree_within_limits fs (packages_root prefix)"

definition store_ok :: "string \<Rightarrow> node \<Rightarrow> bool" where
  "store_ok prefix fs =
     (wf_node fs \<and> \<not> has_magic prefix \<and> \<not> has_nul prefix \<and> within_limits prefix fs)"

section \<open>Example stores\<close>

text \<open>
  A store rooted at \<open>/srv\<close> that holds one file of the package \<open>Django\<close>, and
  the same store with a second file.
\<close>

definition store_django :: node where
  "store_django =
     Dir [(''srv'', Dir [(''packages'', Dir [(''D'', Dir [(''Django'',
       Dir [(''Django-1.0.tar.gz'', File ''abc'')])])])])]"

definition store_django2 :: node where
  "store_django2 =
     Dir [(''srv'', Dir [(''packages'', Dir [(''D'', Dir [(''Django'',
       Dir [(''Django-1.0.tar.gz'', File ''abc''), (''Django-1.1.tar.gz'', File ''xyz'')])])])])]"

text \<open>
  The store that \<open>add_file\<close> builds for the file name \<open>sub/File.txt\<close>: the file
  sits in a subdirectory of the package directory.
\<close>

definition store_nested :: node where
  "store_nested =
     Dir [(''srv'', Dir [(''packages'', Dir [(''D'', Dir [(''Django'',
       Dir [(''sub'', Dir [(''File.txt'', File ''abc'')])])])])])]"


definition store_unsorted :: node where
  "store_unsorted =
     Dir [(''srv'', Dir [(''packages'', Dir
       [(''a'', Dir [(''zeta'', Dir [(''f'', File ''x'')])]),
        (''b'', Dir [(''bar'', Dir [(''g'', File ''y'')])])])])]"

text \<open>
  A store that holds a package under two spellings, each with a file of its own.
\<close>

definition store_variants :: node where
  "store_variants =
     Dir [(''srv'', Dir [(''packages'', Dir
       [(''D'', Dir [(''Django'', Dir [(''File.txt'', File ''upper'')])]),
        (''d'', Dir [(''django'', Dir [(''file.txt'', File ''lower'')])])])])]"

text \<open>
  The store that \<open>add_file\<close> builds for the package name \<open>.Foo\<close>; a store with
  the packages \<open>DJANGO\<close> and \<open>Django\<close>, each with a file of its own; and the store
  that \<open>add_file\<close> builds for the package \<open>a\<close> and the file name \<open>../zeta/f\<close>.
\<close>

definition store_hidden :: node where
  "store_hidden =
     Dir [(''srv'', Dir [(''packages'', Dir [(''.Foo'', Dir [(''x.txt'', File ''abc'')])])])]"

definition store_shadow :: node where
  "store_shadow =
     Dir [(''srv'', Dir [(''packages'', Dir
       [(''D'', Dir [(''DJANGO'', Dir [(''a.txt'', File ''A'')]),
                     (''Django'', Dir [(''B.txt'', File ''B'')])])])])]"


section \<open>Properties\<close>

subsection \<open>The path of a file\<close>

lemma os_path_join_relative:
  "b \<noteq> [] \<Longrightarrow> hd b \<noteq> CHR ''/'' \<Longrightarrow>
   os_path_join a b = (if a = [] \<or> last a = CHR ''/'' then a @ b else a @ ''/'' @ b)"
  by (simp add: os_path_join_def)

text \<open>
  Claim C9.  \<open>get_file_path\<close> is a function of the storage root, the package name
  and the file name alone: it reads no file system and changes none, and equal
  arguments give equal results.  For a non-empty package name its result is the
  root, a slash (unless the root is empty or ends in one already), and then
  \<open>packages/<package[0]>/<package>/<filename>\<close>.
\<close>

theorem get_file_path_layout:
  "package \<noteq> [] \<Longrightarrow>
   get_file_path prefix package filename =
     Inr ((if prefix = [] \<or> last prefix = CHR ''/'' then prefix else prefix @ ''/'')
          @ ''packages/'' @ [hd package] @ ''/'' @ package @ ''/'' @ filename)"
  by (cases package) (simp_all add: get_file_path_def os_path_join_def)

theorem get_file_path_layout_witness:
  "''Django'' \<noteq> [] \<and>
   get_file_path ''/srv/cache'' ''Django'' ''Django-1.0.tar.gz'' =
     Inr ''/srv/cache/packages/D/Django/Django-1.0.tar.gz''"
  using get_file_path_layout [of "''Django''" "''/srv/cache''" "''Django-1.0.tar.gz''"]
  by simp

subsection \<open>Locations: looking up and storing\<close>

lemma lookup_File: "lookup (File c) q = (if q = [] then Some (File c) else None)"
  by (cases q) simp_all

lemma is_dir_at_Nil: "is_dir_at fs [] = is_Dir fs"
  by (cases fs) (simp_all add: is_dir_at_def)

lemma is_dir_at_File: "\<not> is_dir_at (File c) q"
  by (simp add: is_dir_at_def lookup_File)

lemma is_dir_at_Cons:
  "is_dir_at (Dir es) (x # xs) = (case map_of es x of None \<Rightarrow> False | Some m \<Rightarrow> is_dir_at m xs)"
  by (simp add: is_dir_at_def split: option.splits)

lemma map_of_snoc:
  "([x \<mapsto> n] ++ map_of es) y = (case map_of es y of None \<Rightarrow> (if y = x then Some n else None) | Some m \<Rightarrow> Some m)"
  by (simp add: map_add_def split: option.splits)

lemma lookup_put_same:
  "p \<noteq> [] \<Longrightarrow> is_dir_at fs (butlast p) \<Longrightarrow> lookup (put fs p new) p = Some new"
proof (induction p arbitrary: fs)
  case Nil then show ?case by simp
next
  case (Cons x xs)
  show ?case
  proof (cases fs)
    case (File c)
    with Cons.prems show ?thesis by (simp add: is_dir_at_File)
  next
    case (Dir es)
    show ?thesis
    proof (cases xs)
      case Nil
      then show ?thesis using Dir
        by (simp add: map_of_snoc update_conv' split: option.splits)
    next
      case (Cons y ys)
      with Cons.prems Dir obtain m where m: "map_of es x = Some m" "is_dir_at m (butlast xs)"
        by (auto simp: is_dir_at_Cons split: option.splits)
      with Cons.IH [of m] Cons Dir show ?thesis
        by (simp add: update_conv')
    qed
  qed
qed

text \<open>Storing a file or an empty directory where no directory is.\<close>

lemma is_dir_at_put_File:
  "\<not> is_dir_at fs p \<Longrightarrow> is_dir_at (put fs p (File c)) q = is_dir_at fs q"
proof (induction p arbitrary: fs q)
  case Nil
  then show ?case by (cases fs) (simp_all add: is_dir_at_File is_dir_at_Nil)
next
  case (Cons x xs)
  show ?case
  proof (cases fs)
    case (File c')
    then show ?thesis by simp
  next
    case (Dir es)
    show ?thesis
    proof (cases q)
      case Nil
      then show ?thesis using Dir by (simp add: is_dir_at_Nil split: option.splits)
    next
      case q: (Cons y ys)
      show ?thesis
      proof (cases "map_of es x")
        case None
        then show ?thesis using Dir q
          by (simp add: is_dir_at_Cons map_of_snoc is_dir_at_File split: option.splits)
      next
        case (Some m)
        with Cons.prems Dir have "\<not> is_dir_at m xs" by (simp add: is_dir_at_Cons)
        from Cons.IH [OF this] Some Dir q show ?thesis
          by (simp add: is_dir_at_Cons update_conv')
      qed
    qed
  qed
qed

lemma lookup_put_leaf_other:
  "\<not> is_dir_at fs p \<Longrightarrow> q \<noteq> p \<Longrightarrow> new = File c \<or> new = Dir [] \<Longrightarrow>
   (lookup (put fs p new) q = Some (File d)) = (lookup fs q = Some (File d))"
proof (induction p arbitrary: fs q)
  case Nil
  then show ?case by (cases fs; cases q) (auto simp: is_dir_at_Nil lookup_File)
next
  case (Cons x xs)
  show ?case
  proof (cases fs)
    case (File c')
    then show ?thesis by simp
  next
    case (Dir es)
    show ?thesis
    proof (cases q)
      case Nil
      then show ?thesis using Dir by (simp split: option.splits)
    next
      case q: (Cons y ys)
      show ?thesis
      proof (cases "map_of es x")
        case None
        then show ?thesis using Dir q Cons.prems
          by (cases ys) (auto simp: map_of_snoc lookup_File split: option.splits if_splits)
      next
        case (Some m)
        with Cons.prems Dir have nd: "\<not> is_dir_at m xs" by (simp add: is_dir_at_Cons)
        show ?thesis
        proof (cases "y = x")
          case True
          with q Cons.prems have "ys \<noteq> xs" by simp
          from Cons.IH [OF nd this Cons.prems(3)] Some Dir q True show ?thesis
            by (simp add: update_conv')
        next
          case False
          with Some Dir q show ?thesis by (simp add: update_conv')
        qed
      qed
    qed
  qed
qed

lemma is_dir_at_put_mono:
  "\<not> is_dir_at fs p \<Longrightarrow> new = File c \<or> new = Dir [] \<Longrightarrow> is_dir_at fs q \<Longrightarrow>
   is_dir_at (put fs p new) q"
proof (induction p arbitrary: fs q)
  case Nil
  then show ?case by (cases fs; cases q) (auto simp: is_dir_at_Nil is_dir_at_File)
next
  case (Cons x xs)
  show ?case
  proof (cases fs)
    case (File c')
    with Cons.prems show ?thesis by simp
  next
    case (Dir es)
    show ?thesis
    proof (cases q)
      case Nil
      then show ?thesis using Dir by (simp add: is_dir_at_Nil split: option.splits)
    next
      case q: (Cons y ys)
      show ?thesis
      proof (cases "map_of es x")
        case None
        then show ?thesis using Dir q Cons.prems
          by (auto simp: is_dir_at_Cons map_of_snoc split: option.splits)
      next
        case (Some m)
        with Cons.prems Dir have nd: "\<not> is_dir_at m xs" by (simp add: is_dir_at_Cons)
        show ?thesis
        proof (cases "y = x")
          case True
          with Cons.prems(3) Dir q Some have "is_dir_at m ys" by (simp add: is_dir_at_Cons)
          from Cons.IH [OF nd Cons.prems(2) this] Some Dir q True show ?thesis
            by (simp add: is_dir_at_Cons update_conv')
        next
          case False
          with Some Dir q Cons.prems(3) show ?thesis by (simp add: is_dir_at_Cons update_conv')
        qed
      qed
    qed
  qed
qed

subsection \<open>Path resolution, reading and writing\<close>

lemma lookup_put_at:
  "lookup (put fs p new) p = Some new \<or> lookup (put fs p new) p = lookup fs p"
proof (induction p arbitrary: fs)
  case Nil
  then show ?case by simp
next
  case (Cons x xs)
  show ?case
  proof (cases fs)
    case (File c)
    then show ?thesis by simp
  next
    case (Dir es)
    show ?thesis
    proof (cases "map_of es x")
      case None
      with Dir show ?thesis by (simp add: map_of_snoc)
    next
      case (Some m)
      with Cons.IH [of m] Dir show ?thesis by (simp add: update_conv')
    qed
  qed
qed

lemma walk_dir_cong:
  "(\<And>q. is_dir_at fs' q = is_dir_at fs q) \<Longrightarrow> walk_dir fs' cur cs = walk_dir fs cur cs"
  by (induction cs arbitrary: cur) simp_all

lemma resolve_cong:
  "(\<And>q. is_dir_at fs' q = is_dir_at fs q) \<Longrightarrow> resolve fs' path = resolve fs path"
proof -
  assume "\<And>q. is_dir_at fs' q = is_dir_at fs q"
  then have "walk_dir fs' cur cs = walk_dir fs cur cs" for cur cs
    by (rule walk_dir_cong)
  then show ?thesis by (simp add: resolve_def Let_def)
qed

lemma walk_dir_is_dir: "walk_dir fs cur cs = Some d \<Longrightarrow> is_dir_at fs d"
  by (induction cs arbitrary: cur) (auto split: if_splits)

lemma resolve_parent:
  assumes "resolve fs path = Some p" and "\<not> is_dir_at fs p"
  shows "p \<noteq> [] \<and> is_dir_at fs (butlast p)"
proof -
  from assms obtain d where "walk_dir fs [] (butlast (split_slash path)) = Some d"
    and "p = d @ [last (split_slash path)]"
    by (auto simp: resolve_def Let_def split: if_splits dest: walk_dir_is_dir)
  then show ?thesis by (auto dest: walk_dir_is_dir)
qed

lemma open_wb_write_Inr:
  assumes "open_wb_write fs path data = (Inr (), fs')"
  shows "\<exists>p. resolve fs path = Some p \<and> \<not> is_dir_at fs p \<and> p \<noteq> [] \<and> is_dir_at fs (butlast p)
             \<and> fs' = put fs p (File data)"
proof -
  from assms obtain p where p: "resolve fs path = Some p" "\<not> is_dir_at fs p"
      "fs' = put fs p (File data)"
    by (auto simp: open_wb_write_def is_dir_at_def split: option.splits node.splits)
  with resolve_parent [OF p(1,2)] show ?thesis by blast
qed


lemma open_wb_write_then_read:
  assumes "open_wb_write fs path data = (Inr (), fs')"
  shows "open_rb fs' path = Inr data" and "os_path_isfile fs' path"
proof -
  from open_wb_write_Inr [OF assms] obtain p where p: "resolve fs path = Some p"
      "\<not> is_dir_at fs p" "p \<noteq> []" "is_dir_at fs (butlast p)" "fs' = put fs p (File data)"
    by blast
  have "resolve fs' path = resolve fs path"
    unfolding p(5) by (rule resolve_cong) (rule is_dir_at_put_File [OF p(2)])
  moreover have "lookup fs' p = Some (File data)"
    unfolding p(5) by (rule lookup_put_same [OF p(3,4)])
  ultimately show "open_rb fs' path = Inr data" and "os_path_isfile fs' path"
    using p(1) by (simp_all add: open_rb_def os_path_isfile_def is_file_at_def)
qed

lemma only_dirs_added_refl: "only_dirs_added fs fs"
  by (simp add: only_dirs_added_def)

lemma only_dirs_added_trans:
  "only_dirs_added fs fs1 \<Longrightarrow> only_dirs_added fs1 fs2 \<Longrightarrow> only_dirs_added fs fs2"
  by (simp add: only_dirs_added_def)

lemma os_mkdir_only_dirs: "os_mkdir fs path = (r, fs') \<Longrightarrow> only_dirs_added fs fs'"
proof -
  assume a: "os_mkdir fs path = (r, fs')"
  show ?thesis
  proof (cases "fs' = fs")
    case True
    then show ?thesis by (simp add: only_dirs_added_refl)
  next
    case False
    with a obtain p where p: "lookup fs p = None" "fs' = put fs p (Dir [])"
      by (auto simp: os_mkdir_def split: option.splits)
    then have nd: "\<not> is_dir_at fs p" by (simp add: is_dir_at_def)
    have "(lookup fs' q = Some (File d)) = (lookup fs q = Some (File d))" for q d
    proof (cases "q = p")
      case True
      show ?thesis
      proof (cases "lookup fs' p")
        case None
        with p True show ?thesis by simp
      next
        case (Some n)
        with lookup_put_at [of fs p "Dir []"] p True show ?thesis by auto
      qed
    next
      case False
      then show ?thesis unfolding p(2) by (intro lookup_put_leaf_other [OF nd]) simp_all
    qed
    moreover have "is_dir_at fs q \<Longrightarrow> is_dir_at fs' q" for q
      unfolding p(2) by (rule is_dir_at_put_mono [OF nd]) simp_all
    ultimately show ?thesis by (simp add: only_dirs_added_def)
  qed
qed

subsection \<open>Creating directories and adding files\<close>

lemma os_makedirs_only_dirs: "os_makedirs fs name = (r, fs') \<Longrightarrow> only_dirs_added fs fs'"
proof (induction fs name arbitrary: r fs' rule: os_makedirs.induct)
  case (1 fs name)
  let ?head = "fst (makedirs_parts name)"
  let ?tail = "snd (makedirs_parts name)"
  show ?case
  proof (cases "?head \<noteq> [] \<and> ?tail \<noteq> [] \<and> \<not> os_path_exists fs ?head")
    case False
    with "1.prems" have "os_mkdir fs name = (r, fs')"
      by (subst (asm) os_makedirs.simps) (simp split: if_splits)
    then show ?thesis by (rule os_mkdir_only_dirs)
  next
    case True
    obtain r1 fs1 where rec: "os_makedirs fs ?head = (r1, fs1)" by (cases "os_makedirs fs ?head")
    from "1.IH" [OF _ rec] True have step1: "only_dirs_added fs fs1" by simp
    from "1.prems" True rec have "fs' = fs1 \<or> os_mkdir fs1 name = (r, fs')"
      by (subst (asm) os_makedirs.simps) (auto split: if_splits sum.splits)
    then have "only_dirs_added fs1 fs'"
      by (auto simp: only_dirs_added_refl dest: os_mkdir_only_dirs)
    with step1 show ?thesis by (rule only_dirs_added_trans)
  qed
qed

lemma add_file_Inr:
  assumes "add_file prefix fs package filename content = (Inr (), fs')"
  shows "\<exists>path fs1. get_file_path prefix package filename = Inr path
           \<and> \<not> os_path_isfile fs path \<and> only_dirs_added fs fs1
           \<and> open_wb_write fs1 path (materialize content) = (Inr (), fs')"
proof -
  from assms obtain path where path: "get_file_path prefix package filename = Inr path"
    by (cases "get_file_path prefix package filename") (simp_all add: add_file_def)
  obtain r1 fs1 where mk:
    "(if \<not> os_path_isdir fs (os_path_dirname path)
      then os_makedirs fs (os_path_dirname path) else (Inr (), fs)) = (r1, fs1)"
    by (cases "if \<not> os_path_isdir fs (os_path_dirname path)
               then os_makedirs fs (os_path_dirname path) else (Inr (), fs)")
  then have "only_dirs_added fs fs1"
    by (auto simp: only_dirs_added_refl split: if_splits dest: os_makedirs_only_dirs)
  moreover from assms path mk have "\<not> os_path_isfile fs path"
      and "open_wb_write fs1 path (materialize content) = (Inr (), fs')"
    by (auto simp: add_file_def split: if_splits sum.splits)
  ultimately show ?thesis using path by blast
qed

text \<open>
  Claim C1.  Write, then read: when \<open>add_file\<close> succeeds (which it only does for
  a non-empty package name and when no file was at the path before), \<open>get_file\<close>
  for the same package and file name succeeds on the resulting store, and the bytes
  read are exactly the bytes \<open>data\<close> that were added, whether they were given as a
  byte string or as a readable object that yields them.
\<close>

theorem add_file_get_file:
  assumes "content = Str data \<or> content = Readable data"
    and "add_file prefix fs package filename content = (Inr (), fs')"
  shows "get_file md5hex prefix fs' package filename = Some (Inr data)"
proof -
  from add_file_Inr [OF assms(2)] obtain path fs1 where
      path: "get_file_path prefix package filename = Inr path"
    and wr: "open_wb_write fs1 path (materialize content) = (Inr (), fs')"
    by blast
  from assms(1) have "materialize content = data" by auto
  with open_wb_write_then_read(1) [OF wr] path show ?thesis
    by (subst get_file.simps) simp
qed

theorem add_file_get_file_witness:
  "add_file ''/srv'' (Dir []) ''Django'' ''Django-1.0.tar.gz'' (Str ''abc'')
     = (Inr (), store_django)
   \<and> get_file (\<lambda>data. []) ''/srv'' store_django ''Django'' ''Django-1.0.tar.gz''
     = Some (Inr ''abc'')
   \<and> add_file ''/srv'' store_django ''Django'' ''Django-1.1.tar.gz'' (Readable ''xyz'')
     = (Inr (), store_django2)
   \<and> get_file (\<lambda>data. []) ''/srv'' store_django2 ''Django'' ''Django-1.1.tar.gz''
     = Some (Inr ''xyz'')"
proof -
  have h1: "add_file ''/srv'' (Dir []) ''Django'' ''Django-1.0.tar.gz'' (Str ''abc'')
             = (Inr (), store_django)"
    by code_simp
  have h2: "add_file ''/srv'' store_django ''Django'' ''Django-1.1.tar.gz'' (Readable ''xyz'')
             = (Inr (), store_django2)"
    by code_simp
  from add_file_get_file [OF _ h1, of "''abc''" "\<lambda>data. []"]
       add_file_get_file [OF _ h2, of "''xyz''" "\<lambda>data. []"] h1 h2
  show ?thesis by simp
qed

text \<open>
  Claim C2.  Write once: after a successful \<open>add_file\<close>, a second \<open>add_file\<close>
  for the same package and file name fails with \<open>NotOverwritingError\<close>, whose
  message names the computed path; the failed call leaves the store as it was, and
  the stored content is still the first one.
\<close>

theorem add_file_write_once:
  assumes "add_file prefix fs package filename c1 = (Inr (), fs')"
  shows "\<exists>path. get_file_path prefix package filename = Inr path
           \<and> add_file prefix fs' package filename c2
               = (Inl (NotOverwritingError (''Not overwriting '' @ path)), fs')
           \<and> get_file md5hex prefix (snd (add_file prefix fs' package filename c2))
                package filename = Some (Inr (materialize c1))"
proof -
  from add_file_Inr [OF assms] obtain path fs1 where
      path: "get_file_path prefix package filename = Inr path"
    and wr: "open_wb_write fs1 path (materialize c1) = (Inr (), fs')"
    by blast
  from open_wb_write_then_read [OF wr] path
  have 2: "add_file prefix fs' package filename c2
             = (Inl (NotOverwritingError (''Not overwriting '' @ path)), fs')"
    and 3: "get_file md5hex prefix fs' package filename = Some (Inr (materialize c1))"
    by (simp add: add_file_def, subst get_file.simps, simp)
  from path 2 3 show ?thesis by simp
qed

theorem add_file_write_once_witness:
  "add_file ''/srv'' (Dir []) ''Django'' ''Django-1.0.tar.gz'' (Str ''abc'')
     = (Inr (), store_django)
   \<and> add_file ''/srv'' store_django ''Django'' ''Django-1.0.tar.gz'' (Str ''xyz'')
     = (Inl (NotOverwritingError
               ''Not overwriting /srv/packages/D/Django/Django-1.0.tar.gz''), store_django)
   \<and> get_file (\<lambda>data. []) ''/srv'' store_django ''Django'' ''Django-1.0.tar.gz''
     = Some (Inr ''abc'')"
proof -
  have h: "add_file ''/srv'' (Dir []) ''Django'' ''Django-1.0.tar.gz'' (Str ''abc'')
             = (Inr (), store_django)"
    by code_simp
  have p: "get_file_path ''/srv'' ''Django'' ''Django-1.0.tar.gz''
             = Inr ''/srv/packages/D/Django/Django-1.0.tar.gz''"
    by (simp add: get_file_path_def os_path_join_def)
  from add_file_write_once [OF h, of "Str ''xyz''" "\<lambda>data. []"] h p show ?thesis by auto
qed




subsection \<open>The retry of \<open>get_file\<close>\<close>


lemma find_Some_prop: "find P xs = Some x \<Longrightarrow> P x \<and> x \<in> set xs"
  by (induction xs) (auto split: if_splits)



lemma get_file_self_retry_aux:
  "get_file md5hex prefix fs package filename = Some y \<Longrightarrow>
   \<not> (\<exists>path e. get_file_path prefix package filename = Inr path \<and> open_rb fs path = Inl e
         \<and> fish md5hex prefix fs package filename (list_packages prefix fs)
             = Some (Inr (Some (package, filename))))"
  by (rule get_file.raw_induct
        [where P = "\<lambda>md5hex prefix fs package filename y.
           \<not> (\<exists>path e. get_file_path prefix package filename = Inr path \<and> open_rb fs path = Inl e
             \<and> fish md5hex prefix fs package filename (list_packages prefix fs)
                  = Some (Inr (Some (package, filename))))"])
     (auto, blast)

lemma get_file_self_retry:
  assumes "get_file_path prefix package filename = Inr path" and "open_rb fs path = Inl e"
    and "fish md5hex prefix fs package filename (list_packages prefix fs)
           = Some (Inr (Some (package, filename)))"
  shows "get_file md5hex prefix fs package filename = None"
proof (cases "get_file md5hex prefix fs package filename")
  case None
  then show ?thesis .
next
  case (Some y)
  from get_file_self_retry_aux [OF Some] assms show ?thesis by blast
qed










text \<open>
  Claim C6.  \<open>get_file\<close> does not return on every store.  \<open>add_file\<close> with the
  file name \<open>sub/File.txt\<close> stores the file in a subdirectory; \<open>list_files\<close>
  reports it under its last component \<open>File.txt\<close>; \<open>get_file\<close> for that name
  finds no file at the exact path, finds the record, and retries with the very same
  package and file name, forever.
\<close>

theorem get_file_nested_diverges:
  "add_file ''/srv'' (Dir []) ''Django'' ''sub/File.txt'' (Str ''abc'') = (Inr (), store_nested)
   \<and> get_file md5hex ''/srv'' store_nested ''Django'' ''File.txt'' = None"
proof -
  have "add_file ''/srv'' (Dir []) ''Django'' ''sub/File.txt'' (Str ''abc'')
          = (Inr (), store_nested)"
    by code_simp
  moreover have "get_file_path ''/srv'' ''Django'' ''File.txt''
                   = Inr ''/srv/packages/D/Django/File.txt''"
    by code_simp
  moreover have "open_rb store_nested ''/srv/packages/D/Django/File.txt'' = Inl IOError"
    by code_simp
  moreover have "fish md5hex ''/srv'' store_nested ''Django'' ''File.txt''
                   (list_packages ''/srv'' store_nested)
                 = Some (Inr (Some (''Django'', ''File.txt'')))"
    by code_simp
  ultimately show ?thesis by (simp add: get_file_self_retry)
qed

subsection \<open>Path names and locations\<close>

lemma split_slash_not_Nil: "split_slash s \<noteq> []"
  by (induction s) (auto split: list.splits)

lemma split_slash_append_slash:
  "split_slash (a @ CHR ''/'' # b) = split_slash a @ split_slash b"
  using split_slash_not_Nil by (induction a) (auto split: list.splits)

lemma split_slash_no_slash: "CHR ''/'' \<notin> set s \<Longrightarrow> split_slash s = [s]"
  by (induction s) auto

lemma walk_dir_None: "\<not> is_dir_at fs cur \<Longrightarrow> walk_dir fs cur cs = None"
  by (cases cs) simp_all

lemma walk_dir_append:
  "walk_dir fs cur (cs @ ds) =
     (case walk_dir fs cur cs of None \<Rightarrow> None | Some p \<Rightarrow> walk_dir fs p ds)"
  by (induction cs arbitrary: cur) (auto simp: walk_dir_None)

lemma walk_dir_snoc_empty: "walk_dir fs cur (cs @ [[]]) = walk_dir fs cur cs"
  by (auto simp: walk_dir_append split: option.splits dest: walk_dir_is_dir)

lemma os_path_isdir_dir_location: "os_path_isdir fs path = (dir_location fs path \<noteq> None)"
proof (cases "path = []")
  case True
  then show ?thesis by (simp add: os_path_isdir_def resolve_def dir_location_def)
next
  case False
  let ?cs = "split_slash path"
  have cs: "?cs = butlast ?cs @ [last ?cs]" by (simp add: split_slash_not_Nil)
  show ?thesis
  proof (cases "last ?cs = [] \<or> last ?cs = ''.'' \<or> last ?cs = ''..''")
    case True
    with False show ?thesis
      by (auto simp: os_path_isdir_def resolve_def dir_location_def Let_def
               split: option.splits dest: walk_dir_is_dir)
  next
    case special: False
    have "walk_dir fs [] ?cs =
            (case walk_dir fs [] (butlast ?cs) of None \<Rightarrow> None
             | Some p \<Rightarrow> walk_dir fs p [last ?cs])"
      by (subst cs) (simp only: walk_dir_append)
    with False special show ?thesis
      by (auto simp: os_path_isdir_def resolve_def dir_location_def Let_def walk_dir_None
               split: option.splits dest: walk_dir_is_dir)
  qed
qed

lemma dir_location_resolve:
  assumes "dir_location fs path = Some p"
  shows "resolve fs path = Some p" and "is_dir_at fs p"
proof -
  from assms have ne: "path \<noteq> []" and w: "walk_dir fs [] (split_slash path) = Some p"
    by (auto simp: dir_location_def split: if_splits)
  from w show "is_dir_at fs p" by (rule walk_dir_is_dir)
  let ?cs = "split_slash path"
  have cs: "?cs = butlast ?cs @ [last ?cs]" by (simp add: split_slash_not_Nil)
  show "resolve fs path = Some p"
  proof (cases "last ?cs = [] \<or> last ?cs = ''.'' \<or> last ?cs = ''..''")
    case True
    with ne w show ?thesis by (auto simp: resolve_def Let_def)
  next
    case False
    have "walk_dir fs [] ?cs =
            (case walk_dir fs [] (butlast ?cs) of None \<Rightarrow> None
             | Some p \<Rightarrow> walk_dir fs p [last ?cs])"
      by (subst cs) (simp only: walk_dir_append)
    with w False ne show ?thesis
      by (auto simp: resolve_def Let_def split: option.splits if_splits)
  qed
qed

lemma split_slash_trailing:
  assumes "t \<noteq> []" and "last t = CHR ''/''"
  shows "split_slash t = split_slash (butlast t) @ [[]]"
proof -
  from assms have "t = butlast t @ [CHR ''/'']" by (metis append_butlast_last_id)
  then have "split_slash t = split_slash (butlast t @ CHR ''/'' # [])" by simp
  then show ?thesis by (simp only: split_slash_append_slash split_slash.simps)
qed

lemma os_path_join_name:
  assumes "t \<noteq> []" and "valid_name n"
  shows "os_path_join t n = (if last t = CHR ''/'' then t @ n else t @ CHR ''/'' # n)"
proof -
  from assms(2) have "n \<noteq> []" and "CHR ''/'' \<notin> set n" by (auto simp: valid_name_def)
  then have "hd n \<noteq> CHR ''/''" by (metis hd_in_set)
  with assms(1) \<open>n \<noteq> []\<close> show ?thesis by (simp add: os_path_join_def)
qed

lemma split_slash_join:
  assumes "t \<noteq> []" and "valid_name n"
  shows "split_slash (os_path_join t n) =
           (if last t = CHR ''/'' then split_slash (butlast t) @ [n] else split_slash t @ [n])"
proof -
  from assms(2) have n: "CHR ''/'' \<notin> set n" by (auto simp: valid_name_def)
  show ?thesis
  proof (cases "last t = CHR ''/''")
    case True
    with assms(1) obtain t' where t': "t = t' @ [CHR ''/'']"
      by (metis append_butlast_last_id)
    have "os_path_join t n = t' @ CHR ''/'' # n"
      using os_path_join_name [OF assms] True by (simp add: t')
    then have "split_slash (os_path_join t n) = split_slash t' @ [n]"
      by (simp only: split_slash_append_slash split_slash_no_slash [OF n])
    with True show ?thesis by (simp add: t')
  next
    case False
    with n show ?thesis
      by (simp add: os_path_join_name [OF assms] split_slash_append_slash split_slash_no_slash)
  qed
qed

lemma walk_dir_single:
  "valid_name n \<Longrightarrow>
   walk_dir fs p [n] = (if is_dir_at fs p \<and> is_dir_at fs (p @ [n]) then Some (p @ [n]) else None)"
  by (simp add: valid_name_def)

lemma walk_dir_join_parent:
  assumes "t \<noteq> []" and "valid_name n"
  shows "walk_dir fs [] (butlast (split_slash (os_path_join t n))) = walk_dir fs [] (split_slash t)"
proof (cases "last t = CHR ''/''")
  case True
  then show ?thesis
    by (simp add: split_slash_join [OF assms] split_slash_trailing [OF assms(1)]
          walk_dir_snoc_empty)
next
  case False
  then show ?thesis by (simp add: split_slash_join [OF assms])
qed

lemma last_split_slash_join:
  assumes "t \<noteq> []" and "valid_name n"
  shows "last (split_slash (os_path_join t n)) = n"
  by (simp add: split_slash_join [OF assms])

lemma os_path_join_not_Nil: "n \<noteq> [] \<Longrightarrow> os_path_join t n \<noteq> []"
  by (simp add: os_path_join_def)

lemma dir_location_join:
  assumes "dir_location fs t = Some p" and "valid_name n"
  shows "dir_location fs (os_path_join t n) = (if is_dir_at fs (p @ [n]) then Some (p @ [n]) else None)"
    and "resolve fs (os_path_join t n) = Some (p @ [n])"
proof -
  from assms(1) have t: "t \<noteq> []" and w: "walk_dir fs [] (split_slash t) = Some p"
    by (auto simp: dir_location_def split: if_splits)
  from assms(2) have n: "n \<noteq> []" "n \<noteq> ''.''" "n \<noteq> ''..''" by (auto simp: valid_name_def)
  let ?cs = "split_slash (os_path_join t n)"
  have par: "walk_dir fs [] (butlast ?cs) = Some p"
    using walk_dir_join_parent [OF t assms(2), of fs] w by simp
  have la: "last ?cs = n" by (rule last_split_slash_join [OF t assms(2)])
  have "?cs = butlast ?cs @ [n]"
    using la split_slash_not_Nil [of "os_path_join t n"] by (metis append_butlast_last_id)
  then have "walk_dir fs [] ?cs = walk_dir fs p [n]"
    using par by (metis (no_types, lifting) option.simps(5) walk_dir_append)
  moreover have "is_dir_at fs p" using w by (rule walk_dir_is_dir)
  ultimately
  show "dir_location fs (os_path_join t n) = (if is_dir_at fs (p @ [n]) then Some (p @ [n]) else None)"
    using n by (simp add: dir_location_def os_path_join_not_Nil walk_dir_single [OF assms(2)])
  show "resolve fs (os_path_join t n) = Some (p @ [n])"
    using n par la by (simp add: resolve_def Let_def os_path_join_not_Nil)
qed

subsection \<open>What \<open>add_file\<close> creates\<close>
















subsection \<open>Walking a package directory\<close>

lemma wf_node_entry:
  assumes "wf_node (Dir es)" and "(n, m) \<in> set es"
  shows "map_of es n = Some m" and "valid_name n" and "wf_node m"
  using assms by (auto simp: map_of_eq_Some_iff)

lemma wf_node_lookup: "wf_node fs \<Longrightarrow> lookup fs p = Some n \<Longrightarrow> wf_node n"
proof (induction p arbitrary: fs)
  case Nil
  then show ?case by simp
next
  case (Cons x xs)
  show ?case
  proof (cases fs)
    case (File c)
    with Cons.prems show ?thesis by simp
  next
    case (Dir es)
    with Cons.prems obtain m where m: "map_of es x = Some m" "lookup m xs = Some n"
      by (auto split: option.splits)
    from m(1) have "(x, m) \<in> set es" by (rule map_of_SomeD)
    with Cons.prems(1) Dir have "wf_node m" by auto
    from Cons.IH [OF this m(2)] show ?thesis .
  qed
qed

lemma lookup_append:
  "lookup fs (p @ q) = (case lookup fs p of None \<Rightarrow> None | Some n \<Rightarrow> lookup n q)"
proof (induction p arbitrary: fs)
  case Nil
  then show ?case by simp
next
  case (Cons x xs)
  then show ?case by (cases fs) (auto split: option.splits)
qed

lemma lookup_child: "lookup fs p = Some (Dir es) \<Longrightarrow> lookup fs (p @ [n]) = map_of es n"
  by (simp add: lookup_append split: option.splits)

lemma not_is_Dir: "\<not> is_Dir m \<Longrightarrow> \<exists>c. m = File c"
  by (cases m) simp_all

lemma is_Dir_ex: "is_Dir m \<Longrightarrow> \<exists>es. m = Dir es"
  by (cases m) simp_all

lemma walk_node_triples:
  "wf_node fs \<Longrightarrow> dir_location fs t = Some p \<Longrightarrow> lookup fs p = Some n \<Longrightarrow>
   (root, dirs, files) \<in> set (walk_node t n) \<Longrightarrow>
   \<exists>q es. dir_location fs root = Some q \<and> lookup fs q = Some (Dir es)
          \<and> files = map fst (filter (\<lambda>e. \<not> is_Dir (snd e)) es)"
proof (induction t n arbitrary: p rule: walk_node.induct)
  case (1 topdir c)
  then show ?case by simp
next
  case (2 topdir es)
  from "2.prems"(4) consider
      (own) "root = topdir" "files = map fst (filter (\<lambda>e. \<not> is_Dir (snd e)) es)"
    | (child) e where "e \<in> set es" "is_Dir (snd e)"
        "(root, dirs, files) \<in> set (walk_node (os_path_join topdir (fst e)) (snd e))"
    by (auto split: if_splits)
  then show ?case
  proof cases
    case own
    with "2.prems"(2,3) show ?thesis by blast
  next
    case child
    obtain name m where e: "e = (name, m)" by (cases e)
    from "2.prems"(1,3) have wf: "wf_node (Dir es)" by (rule wf_node_lookup)
    from wf_node_entry [OF wf] child(1) e
    have m: "map_of es name = Some m" "valid_name name" by auto
    from "2.prems"(3) m(1) have lk: "lookup fs (p @ [name]) = Some m" by (simp add: lookup_child)
    with child(2) e have "is_dir_at fs (p @ [name])"
      by (auto simp: is_dir_at_def dest: is_Dir_ex)
    with dir_location_join(1) [OF "2.prems"(2) m(2)]
    have dl: "dir_location fs (os_path_join topdir name) = Some (p @ [name])" by simp
    from "2.IH" [OF child(1,2) "2.prems"(1), of "p @ [name]"] dl lk child(3) e
    show ?thesis by simp
  qed
qed

lemma os_walk_triples:
  assumes "wf_node fs" and "(root, dirs, files) \<in> set (os_walk fs t)"
  shows "\<exists>q es. dir_location fs root = Some q \<and> lookup fs q = Some (Dir es)
          \<and> files = map fst (filter (\<lambda>e. \<not> is_Dir (snd e)) es)"
proof -
  from assms(2) obtain p where p1: "resolve fs t = Some p"
    by (cases "resolve fs t") (simp_all add: os_walk_def)
  with assms(2) obtain n where p2: "lookup fs p = Some n"
    by (cases "lookup fs p") (simp_all add: os_walk_def)
  note p = p1 p2
  from assms(2) p have mem: "(root, dirs, files) \<in> set (walk_node t n)"
    by (simp add: os_walk_def)
  from mem obtain es where n: "n = Dir es" by (cases n) simp_all
  with p have "os_path_isdir fs t" by (simp add: os_path_isdir_def is_dir_at_def)
  then obtain p' where p': "dir_location fs t = Some p'"
    by (auto simp: os_path_isdir_dir_location)
  from dir_location_resolve(1) [OF p'] p(1) have "p' = p" by simp
  with walk_node_triples [OF assms(1) p' _ mem] p(2) show ?thesis by simp
qed

lemma read_files_ok:
  assumes "wf_node fs" and "dir_location fs root = Some q" and "lookup fs q = Some (Dir es)"
  shows "set files \<subseteq> fst ` {e \<in> set es. \<not> is_Dir (snd e)} \<Longrightarrow>
         snd (read_files md5hex fs package firstletter root files) = None
         \<and> map rec_filename (fst (read_files md5hex fs package firstletter root files)) = files"
proof (induction files)
  case Nil
  then show ?case by simp
next
  case (Cons f files)
  from Cons.prems obtain m where m: "(f, m) \<in> set es" "\<not> is_Dir m" by auto
  from assms(1,3) have wf: "wf_node (Dir es)" by (rule wf_node_lookup)
  from wf_node_entry [OF wf m(1)] have mo: "map_of es f = Some m" and v: "valid_name f"
    by simp_all
  from m(2) obtain c where c: "m = File c" by (auto dest: not_is_Dir)
  have "resolve fs (os_path_join root f) = Some (q @ [f])"
    by (rule dir_location_join(2) [OF assms(2) v])
  moreover have "lookup fs (q @ [f]) = Some (File c)"
    using assms(3) mo c by (simp add: lookup_child)
  ultimately have "open_rb fs (os_path_join root f) = Inr c" by (simp add: open_rb_def)
  with Cons show ?case
    by (cases "read_files md5hex fs package firstletter root files") simp
qed

lemma walk_records_ok:
  "wf_node fs \<Longrightarrow>
   (\<forall>t \<in> set ts. \<exists>q es. dir_location fs (fst t) = Some q \<and> lookup fs q = Some (Dir es)
          \<and> snd (snd t) = map fst (filter (\<lambda>e. \<not> is_Dir (snd e)) es)) \<Longrightarrow>
   snd (walk_records md5hex fs package firstletter ts) = None
   \<and> map rec_filename (fst (walk_records md5hex fs package firstletter ts))
       = concat (map (\<lambda>t. snd (snd t)) ts)"
proof (induction ts)
  case Nil
  then show ?case by simp
next
  case (Cons t ts)
  obtain root dirs files where t: "t = (root, dirs, files)" by (cases t)
  from Cons.prems(2) t obtain q es where q: "dir_location fs root = Some q"
      "lookup fs q = Some (Dir es)" "files = map fst (filter (\<lambda>e. \<not> is_Dir (snd e)) es)"
    by auto
  have "set files \<subseteq> fst ` {e \<in> set es. \<not> is_Dir (snd e)}" using q(3) by auto
  from read_files_ok [OF Cons.prems(1) q(1,2) this, of md5hex package firstletter]
  have rf: "snd (read_files md5hex fs package firstletter root files) = None"
    "map rec_filename (fst (read_files md5hex fs package firstletter root files)) = files"
    by simp_all
  from Cons.IH [OF Cons.prems(1)] Cons.prems(2)
  have ih: "snd (walk_records md5hex fs package firstletter ts) = None"
    "map rec_filename (fst (walk_records md5hex fs package firstletter ts))
       = concat (map (\<lambda>t. snd (snd t)) ts)"
    by simp_all
  from rf ih t show ?case
    by (cases "read_files md5hex fs package firstletter root files";
        cases "walk_records md5hex fs package firstletter ts") simp
qed

lemma os_walk_records_ok:
  assumes "wf_node fs"
  shows "snd (walk_records md5hex fs package firstletter (os_walk fs t)) = None"
    and "map rec_filename (fst (walk_records md5hex fs package firstletter (os_walk fs t)))
           = concat (map (\<lambda>t. snd (snd t)) (os_walk fs t))"
proof -
  have "\<forall>t' \<in> set (os_walk fs t). \<exists>q es. dir_location fs (fst t') = Some q
          \<and> lookup fs q = Some (Dir es)
          \<and> snd (snd t') = map fst (filter (\<lambda>e. \<not> is_Dir (snd e)) es)"
    using os_walk_triples [OF assms] by auto
  from walk_records_ok [OF assms this]
  show "snd (walk_records md5hex fs package firstletter (os_walk fs t)) = None"
    and "map rec_filename (fst (walk_records md5hex fs package firstletter (os_walk fs t)))
           = concat (map (\<lambda>t. snd (snd t)) (os_walk fs t))"
    by simp_all
qed

lemma os_walk_not_dir: "\<not> os_path_isdir fs t \<Longrightarrow> os_walk fs t = []"
  by (auto simp: os_walk_def os_path_isdir_def is_dir_at_def split: option.splits node.splits)

lemma list_files_exact:
  assumes "package \<noteq> []" and "os_path_isdir fs (package_dir prefix package)"
  shows "list_files md5hex prefix fs package =
           Some (walk_records md5hex fs package (take 1 package)
                   (os_walk fs (package_dir prefix package)))"
proof (cases package)
  case Nil
  with assms show ?thesis by simp
next
  case (Cons a rest)
  with assms show ?thesis by (subst list_files.simps) (simp add: package_dir_def)
qed

lemma list_files_fished:
  assumes "package \<noteq> []" and "\<not> os_path_isdir fs (package_dir prefix package)"
    and "find (\<lambda>my_package. lower my_package = lower package) (list_packages prefix fs) = Some mp"
  shows "list_files md5hex prefix fs package = list_files md5hex prefix fs mp"
proof (cases package)
  case Nil
  with assms show ?thesis by simp
next
  case (Cons a rest)
  with assms show ?thesis by (subst list_files.simps) (simp add: package_dir_def)
qed

lemma list_files_absent:
  assumes "package \<noteq> []" and "\<not> os_path_isdir fs (package_dir prefix package)"
    and "find (\<lambda>my_package. lower my_package = lower package) (list_packages prefix fs) = None"
  shows "list_files md5hex prefix fs package = Some ([], None)"
proof (cases package)
  case Nil
  with assms show ?thesis by simp
next
  case (Cons a rest)
  with assms os_walk_not_dir [OF assms(2)] show ?thesis
    by (subst list_files.simps) (simp add: package_dir_def)
qed

subsection \<open>The packages that the scan finds\<close>

lemma rstrip_slash_last: "last a \<noteq> CHR ''/'' \<Longrightarrow> rstrip_slash a = a"
proof (cases a rule: rev_cases)
  case Nil
  then show ?thesis by (simp add: rstrip_slash_def)
next
  case (snoc ys y)
  assume "last a \<noteq> CHR ''/''"
  with snoc show ?thesis by (simp add: rstrip_slash_def)
qed

lemma os_path_split_simple:
  assumes "CHR ''/'' \<notin> set b" and "a \<noteq> []" and "last a \<noteq> CHR ''/''"
  shows "os_path_split (a @ CHR ''/'' # b) = (a, b)"
proof -
  have b: "\<forall>x \<in> set (rev b). x \<noteq> CHR ''/''" using assms(1) by auto
  have tw: "takeWhile (\<lambda>c. c \<noteq> CHR ''/'') (rev b @ CHR ''/'' # rev a) = rev b"
    using b by (subst takeWhile_append2) auto
  have dw: "dropWhile (\<lambda>c. c \<noteq> CHR ''/'') (rev b @ CHR ''/'' # rev a) = CHR ''/'' # rev a"
    using b by (subst dropWhile_append2) auto
  have ne: "a @ ''/'' \<noteq> replicate (length (a @ ''/'')) CHR ''/''"
  proof
    assume "a @ ''/'' = replicate (length (a @ ''/'')) CHR ''/''"
    then have "set (a @ ''/'') \<subseteq> {CHR ''/''}" by (metis set_replicate_conv_if empty_subsetI subset_refl)
    with assms(2,3) show False by (metis last_in_set Un_iff set_append singletonD subsetD)
  qed
  have rs: "rstrip_slash (a @ ''/'') = a"
    using rstrip_slash_last [OF assms(3)] by (simp add: rstrip_slash_def)
  show ?thesis
    using ne rs by (simp add: os_path_split_def Let_def tw dw)
qed

lemma has_magic_append: "has_magic (a @ b) = (has_magic a \<or> has_magic b)"
  by (auto simp: has_magic_def)

lemma packages_root_props:
  "packages_root prefix \<noteq> []" "last (packages_root prefix) \<noteq> CHR ''/''"
  "has_magic (packages_root prefix) = has_magic prefix"
  by (auto simp: packages_root_def os_path_join_def has_magic_append) (simp_all add: has_magic_def)

lemma pattern_eq:
  "os_path_join prefix ''packages/?/*'' = packages_root prefix @ ''/?/*''"
  by (simp add: packages_root_def os_path_join_def)

lemma package_dir_eq:
  "package_dir prefix package = packages_root prefix @ ''/'' @ take 1 package @ ''/'' @ package"
  by (simp add: packages_root_def package_dir_def os_path_join_def)

lemma glob_packages:
  assumes "\<not> has_magic prefix"
  shows "glob fs (os_path_join prefix ''packages/?/*'') =
           concat (map (\<lambda>d. map (os_path_join d) (glob1 fs d ''*''))
                     (map (os_path_join (packages_root prefix))
                        (glob1 fs (packages_root prefix) ''?'')))"
proof -
  let ?D = "packages_root prefix"
  have s1: "os_path_split (?D @ ''/?/*'') = (?D @ ''/?'', ''*'')"
    using os_path_split_simple [of "''*''" "?D @ ''/?''"] by simp
  have s2: "os_path_split (?D @ ''/?'') = (?D, ''?'')"
    using os_path_split_simple [of "''?''" "?D"] packages_root_props(1,2) [of prefix] by simp
  have m: "has_magic ''*''" "has_magic ''?''" "has_magic (?D @ ''/?'')"
      "has_magic (?D @ ''/?/*'')" "\<not> has_magic ?D"
    using assms by (simp_all add: has_magic_append packages_root_props(3)) (simp_all add: has_magic_def)
  have g2: "glob fs (?D @ ''/?'') = map (os_path_join ?D) (glob1 fs ?D ''?'')"
    using m packages_root_props(1) [of prefix] by (subst glob.simps) (simp add: s2)
  show ?thesis
    unfolding pattern_eq using m g2 by (subst glob.simps) (simp add: s1)
qed

lemma fnmatch_star: "fnmatch ''*'' x"
  by (induction x) simp_all

lemma fnmatch_question: "fnmatch ''?'' x = (length x = 1)"
  by (cases x; cases "tl x") auto

lemma dir_location_join_eq:
  assumes "t \<noteq> []" and "valid_name n"
  shows "dir_location fs (os_path_join t n) =
           (case dir_location fs t of None \<Rightarrow> None
            | Some p \<Rightarrow> if is_dir_at fs (p @ [n]) then Some (p @ [n]) else None)"
proof (cases "dir_location fs t")
  case (Some p)
  with dir_location_join(1) [OF Some assms(2)] show ?thesis by simp
next
  case None
  with assms(1) have w: "walk_dir fs [] (split_slash t) = None" by (simp add: dir_location_def)
  let ?cs = "split_slash (os_path_join t n)"
  have "?cs = butlast ?cs @ [last ?cs]"
    using split_slash_not_Nil [of "os_path_join t n"] by simp
  then have "walk_dir fs [] ?cs =
               (case walk_dir fs [] (butlast ?cs) of None \<Rightarrow> None
                | Some p \<Rightarrow> walk_dir fs p [last ?cs])"
    by (metis walk_dir_append)
  with w walk_dir_join_parent [OF assms, of fs] have "walk_dir fs [] ?cs = None" by simp
  with None show ?thesis by (simp add: dir_location_def)
qed

lemma os_path_isdir_cases:
  "os_path_isdir fs d \<longleftrightarrow> (\<exists>q es. dir_location fs d = Some q \<and> lookup fs q = Some (Dir es))"
proof
  assume "os_path_isdir fs d"
  then obtain q where q: "dir_location fs d = Some q" by (auto simp: os_path_isdir_dir_location)
  from dir_location_resolve(2) [OF q] obtain es where "lookup fs q = Some (Dir es)"
    by (auto simp: is_dir_at_def split: option.splits node.splits)
  with q show "\<exists>q es. dir_location fs d = Some q \<and> lookup fs q = Some (Dir es)" by blast
next
  assume "\<exists>q es. dir_location fs d = Some q \<and> lookup fs q = Some (Dir es)"
  then show "os_path_isdir fs d" by (auto simp: os_path_isdir_dir_location)
qed

lemma os_listdir_dir:
  assumes "dir_location fs d = Some q" and "lookup fs q = Some (Dir es)"
  shows "os_listdir fs d = Some (map fst es)"
  using dir_location_resolve(1) [OF assms(1)] assms(2) by (simp add: os_listdir_def)

lemma os_listdir_not_dir: "\<not> os_path_isdir fs d \<Longrightarrow> os_listdir fs d = None"
  by (auto simp: os_listdir_def os_path_isdir_def is_dir_at_def split: option.splits node.splits)

lemma glob1_question:
  assumes "d \<noteq> []"
  shows "glob1 fs d ''?'' =
           (case os_listdir fs d of None \<Rightarrow> []
            | Some names \<Rightarrow> filter (\<lambda>x. length x = 1 \<and> x \<noteq> ''.'') names)"
proof -
  have "(take 1 x \<noteq> ''.'' \<and> length x = 1) = (length x = 1 \<and> x \<noteq> ''.'')" for x :: string
    by (cases x) auto
  then have "filter (fnmatch ''?'') (filter (\<lambda>x. take 1 x \<noteq> ''.'') names)
               = filter (\<lambda>x. length x = 1 \<and> x \<noteq> ''.'') names" for names
    by (simp add: fnmatch_question conj_commute cong: conj_cong)
  with assms show ?thesis by (simp add: glob1_def split: option.splits)
qed

lemma glob1_star:
  assumes "d \<noteq> []"
  shows "glob1 fs d ''*'' =
           (case os_listdir fs d of None \<Rightarrow> []
            | Some names \<Rightarrow> filter (\<lambda>x. take 1 x \<noteq> ''.'') names)"
  using assms by (simp add: glob1_def fnmatch_star split: option.splits)

lemma os_listdir_wf:
  assumes "wf_node fs" and "os_listdir fs d = Some names"
  shows "\<exists>q es. dir_location fs d = Some q \<and> lookup fs q = Some (Dir es) \<and> names = map fst es
           \<and> wf_node (Dir es)"
proof -
  from assms(2) have "os_path_isdir fs d" using os_listdir_not_dir [of fs d] by auto
  then obtain q es where q: "dir_location fs d = Some q" "lookup fs q = Some (Dir es)"
    by (auto simp: os_path_isdir_cases)
  from os_listdir_dir [OF q] assms(2) have "names = map fst es" by simp
  moreover from assms(1) q(2) have "wf_node (Dir es)" by (rule wf_node_lookup)
  ultimately show ?thesis using q by blast
qed

lemma is_dir_at_child_name:
  assumes "lookup fs q = Some (Dir es)" and "is_dir_at fs (q @ [n])"
  shows "n \<in> fst ` set es"
proof -
  from assms have "map_of es n \<noteq> None"
    by (auto simp: is_dir_at_def lookup_child split: option.splits)
  then show ?thesis by (auto simp: map_of_eq_None_iff)
qed

lemma mem_glob1_question:
  assumes "wf_node fs" and "d \<noteq> []"
  shows "s \<in> set (glob1 fs d ''?'') \<longleftrightarrow>
           length s = 1 \<and> valid_name s
           \<and> (\<exists>q es. dir_location fs d = Some q \<and> lookup fs q = Some (Dir es) \<and> s \<in> fst ` set es)"
proof (cases "os_listdir fs d")
  case None
  then have "\<not> os_path_isdir fs d"
    using os_listdir_dir [of fs d] by (auto simp: os_path_isdir_cases)
  with None assms(2) show ?thesis by (auto simp: glob1_question os_path_isdir_cases)
next
  case (Some names)
  from os_listdir_wf [OF assms(1) Some] obtain q es where q: "dir_location fs d = Some q"
      "lookup fs q = Some (Dir es)" "names = map fst es" "wf_node (Dir es)"
    by blast
  have "valid_name s" if "s \<in> fst ` set es" using that q(4) by auto
  moreover have "s \<noteq> ''.''" if "valid_name s" using that by (simp add: valid_name_def)
  ultimately show ?thesis using Some q assms(2) by (auto simp: glob1_question)
qed

lemma mem_glob1_star:
  assumes "wf_node fs" and "d \<noteq> []"
  shows "n \<in> set (glob1 fs d ''*'') \<longleftrightarrow>
           take 1 n \<noteq> ''.'' \<and> valid_name n
           \<and> (\<exists>q es. dir_location fs d = Some q \<and> lookup fs q = Some (Dir es) \<and> n \<in> fst ` set es)"
proof (cases "os_listdir fs d")
  case None
  then have "\<not> os_path_isdir fs d"
    using os_listdir_dir [of fs d] by (auto simp: os_path_isdir_cases)
  with None assms(2) show ?thesis by (auto simp: glob1_star os_path_isdir_cases)
next
  case (Some names)
  from os_listdir_wf [OF assms(1) Some] obtain q es where q: "dir_location fs d = Some q"
      "lookup fs q = Some (Dir es)" "names = map fst es" "wf_node (Dir es)"
    by blast
  have "valid_name s" if "s \<in> fst ` set es" for s using that q(4) by auto
  then show ?thesis using Some q assms(2) by (auto simp: glob1_star)
qed


lemma valid_name_last: "valid_name n \<Longrightarrow> last n \<noteq> CHR ''/''"
  by (metis last_in_set valid_name_def)

lemma shard_path:
  assumes "valid_name s"
  shows "os_path_join (packages_root prefix) s = packages_root prefix @ CHR ''/'' # s"
    and "os_path_join (packages_root prefix) s \<noteq> []"
    and "last (os_path_join (packages_root prefix) s) \<noteq> CHR ''/''"
proof -
  show 1: "os_path_join (packages_root prefix) s = packages_root prefix @ CHR ''/'' # s"
    using os_path_join_name [OF packages_root_props(1) assms, of prefix]
      packages_root_props(2) [of prefix] by simp
  then show "os_path_join (packages_root prefix) s \<noteq> []" by simp
  from assms have "s \<noteq> []" by (simp add: valid_name_def)
  with 1 valid_name_last [OF assms]
  show "last (os_path_join (packages_root prefix) s) \<noteq> CHR ''/''" by simp
qed

lemma package_path:
  assumes "valid_name s" and "valid_name n"
  shows "os_path_join (os_path_join (packages_root prefix) s) n
           = packages_root prefix @ ''/'' @ s @ ''/'' @ n"
    and "os_path_basename (os_path_join (os_path_join (packages_root prefix) s) n) = n"
proof -
  let ?d = "os_path_join (packages_root prefix) s"
  have j: "os_path_join ?d n = ?d @ CHR ''/'' # n"
    using os_path_join_name [OF shard_path(2) [OF assms(1)] assms(2), of prefix]
      shard_path(3) [OF assms(1), of prefix] by simp
  then show "os_path_join ?d n = packages_root prefix @ ''/'' @ s @ ''/'' @ n"
    by (simp add: shard_path(1) [OF assms(1)])
  from assms(2) have "CHR ''/'' \<notin> set n" by (simp add: valid_name_def)
  from os_path_split_simple [OF this shard_path(2,3) [OF assms(1)], of prefix] j
  show "os_path_basename (os_path_join ?d n) = n" by (simp add: os_path_basename_def)
qed

lemma mem_glob_packages:
  assumes "wf_node fs" and "\<not> has_magic prefix"
  shows "x \<in> set (glob fs (os_path_join prefix ''packages/?/*'')) \<and> os_path_isdir fs x \<longleftrightarrow>
           (\<exists>s n. (s, n) \<in> shard_dirs prefix fs \<and> take 1 n \<noteq> ''.''
              \<and> x = packages_root prefix @ ''/'' @ s @ ''/'' @ n)"
    (is "?L \<longleftrightarrow> ?R")
proof
  let ?D = "packages_root prefix"
  assume ?L
  then obtain s n where s: "s \<in> set (glob1 fs ?D ''?'')"
      and n: "n \<in> set (glob1 fs (os_path_join ?D s) ''*'')"
      and x: "x = os_path_join (os_path_join ?D s) n" and d: "os_path_isdir fs x"
    by (auto simp: glob_packages [OF assms(2)])
  from s have vs: "length s = 1" "valid_name s"
    by (simp_all add: mem_glob1_question [OF assms(1) packages_root_props(1)])
  from n have vn: "take 1 n \<noteq> ''.''" "valid_name n"
    by (simp_all add: mem_glob1_star [OF assms(1) shard_path(2) [OF vs(2)]])
  from x have x': "x = ?D @ ''/'' @ s @ ''/'' @ n" by (simp only: package_path(1) [OF vs(2) vn(2)])
  with d vs vn show ?R by (auto simp: shard_dirs_def)
next
  let ?D = "packages_root prefix"
  assume ?R
  then obtain s n where sn: "length s = 1" "valid_name s" "valid_name n" "take 1 n \<noteq> ''.''"
      and x: "x = ?D @ ''/'' @ s @ ''/'' @ n" and d: "os_path_isdir fs x"
    by (auto simp: shard_dirs_def)
  let ?d = "os_path_join ?D s"
  have xj: "x = os_path_join ?d n" by (simp only: x package_path(1) [OF sn(2,3)])
  from d xj obtain r where r: "dir_location fs (os_path_join ?d n) = Some r"
    by (auto simp: os_path_isdir_dir_location)
  with dir_location_join_eq [OF shard_path(2) [OF sn(2)] sn(3), of fs prefix]
  obtain p where p: "dir_location fs ?d = Some p" "is_dir_at fs (p @ [n])"
    by (auto split: option.splits if_splits)
  with dir_location_join_eq [OF packages_root_props(1) sn(2), of fs prefix]
  obtain q where q: "dir_location fs ?D = Some q" "is_dir_at fs (q @ [s])" "p = q @ [s]"
    by (auto split: option.splits if_splits)
  from dir_location_resolve(2) [OF q(1)] obtain shards where sh: "lookup fs q = Some (Dir shards)"
    by (auto simp: is_dir_at_def split: option.splits node.splits)
  from dir_location_resolve(2) [OF p(1)] obtain es where es: "lookup fs p = Some (Dir es)"
    by (auto simp: is_dir_at_def split: option.splits node.splits)
  have "s \<in> set (glob1 fs ?D ''?'')"
    using sn q(1) sh is_dir_at_child_name [OF sh q(2)]
    by (auto simp: mem_glob1_question [OF assms(1) packages_root_props(1)])
  moreover have "n \<in> set (glob1 fs ?d ''*'')"
    using sn p(1) es is_dir_at_child_name [OF es p(2)]
    by (auto simp: mem_glob1_star [OF assms(1) shard_path(2) [OF sn(2)]])
  ultimately show ?L using xj d by (auto simp: glob_packages [OF assms(2)])
qed

lemma set_list_packages:
  assumes "wf_node fs" and "\<not> has_magic prefix"
  shows "set (list_packages prefix fs) = snd ` {(s, n) \<in> shard_dirs prefix fs. take 1 n \<noteq> ''.''}"
proof -
  let ?G = "glob fs (os_path_join prefix ''packages/?/*'')"
  have "set (list_packages prefix fs) = os_path_basename ` {x \<in> set ?G. os_path_isdir fs x}"
    by (auto simp: list_packages_def)
  also have "{x \<in> set ?G. os_path_isdir fs x} =
               (\<lambda>(s, n). packages_root prefix @ ''/'' @ s @ ''/'' @ n)
                 ` {(s, n) \<in> shard_dirs prefix fs. take 1 n \<noteq> ''.''}"
    using mem_glob_packages [OF assms] by (auto simp: image_iff)
  also have "os_path_basename ` \<dots> = snd ` {(s, n) \<in> shard_dirs prefix fs. take 1 n \<noteq> ''.''}"
  proof -
    have "os_path_basename (packages_root prefix @ ''/'' @ s @ ''/'' @ n) = n"
      if "(s, n) \<in> shard_dirs prefix fs" for s n
      using that package_path [of s n prefix] by (simp add: shard_dirs_def)
    then show ?thesis by (force simp: image_iff)
  qed
  finally show ?thesis .
qed

lemma distinct_concat_map:
  "distinct xs \<Longrightarrow> (\<And>x. x \<in> set xs \<Longrightarrow> distinct (f x)) \<Longrightarrow>
   (\<And>x y. x \<in> set xs \<Longrightarrow> y \<in> set xs \<Longrightarrow> x \<noteq> y \<Longrightarrow> set (f x) \<inter> set (f y) = {}) \<Longrightarrow>
   distinct (concat (map f xs))"
proof (induction xs)
  case Nil
  then show ?case by simp
next
  case (Cons a xs)
  have "set (f a) \<inter> set (f y) = {}" if "y \<in> set xs" for y
    using Cons.prems(3) [of a y] Cons.prems(1) that by auto
  moreover have "distinct (concat (map f xs))"
    using Cons.IH Cons.prems by auto
  ultimately show ?case using Cons.prems(2) [of a] by auto
qed




lemma list_packages_valid:
  assumes "wf_node fs" and "\<not> has_magic prefix" and "mp \<in> set (list_packages prefix fs)"
  shows "valid_name mp" and "take 1 mp \<noteq> ''.''"
  using assms(3) by (auto simp: set_list_packages [OF assms(1,2)] shard_dirs_def)


subsection \<open>Listing the files of a package\<close>

text \<open>
  The records of a walk are the records of the regular files below the directory.
\<close>

lemma files_below_nonempty: "(q, d) \<in> set (files_below n) \<Longrightarrow> q \<noteq> []"
  by (cases n) auto

lemma read_files_eq:
  assumes "wf_node fs" and "dir_location fs root = Some q" and "lookup fs q = Some (Dir es)"
  shows "set fe \<subseteq> {e \<in> set es. \<not> is_Dir (snd e)} \<Longrightarrow>
         read_files md5hex fs pk fl root (map fst fe)
           = (map (\<lambda>e. \<lparr>rec_package = pk, rec_firstletter = fl, rec_filename = fst e,
                         rec_md5 = md5hex (file_data (snd e))\<rparr>) fe, None)"
proof (induction fe)
  case Nil
  then show ?case by simp
next
  case (Cons e fe)
  obtain f m where e: "e = (f, m)" by (cases e)
  with Cons.prems have m: "(f, m) \<in> set es" "\<not> is_Dir m" by auto
  from assms(1,3) have wf: "wf_node (Dir es)" by (rule wf_node_lookup)
  from wf_node_entry [OF wf m(1)] have mo: "map_of es f = Some m" and v: "valid_name f"
    by simp_all
  from m(2) obtain c where c: "m = File c" by (auto dest: not_is_Dir)
  have "resolve fs (os_path_join root f) = Some (q @ [f])"
    by (rule dir_location_join(2) [OF assms(2) v])
  moreover have "lookup fs (q @ [f]) = Some (File c)"
    using assms(3) mo c by (simp add: lookup_child)
  ultimately have "open_rb fs (os_path_join root f) = Inr c" by (simp add: open_rb_def)
  moreover from Cons have "read_files md5hex fs pk fl root (map fst fe)
           = (map (\<lambda>e. \<lparr>rec_package = pk, rec_firstletter = fl, rec_filename = fst e,
                         rec_md5 = md5hex (file_data (snd e))\<rparr>) fe, None)"
    by simp
  ultimately show ?case by (simp add: e c)
qed

lemma walk_records_append:
  "walk_records md5hex fs pk fl (ts1 @ ts2) =
     (case walk_records md5hex fs pk fl ts1 of
        (r1, Some e) \<Rightarrow> (r1, Some e)
      | (r1, None) \<Rightarrow>
          (case walk_records md5hex fs pk fl ts2 of (r2, e) \<Rightarrow> (r1 @ r2, e)))"
proof (induction ts1)
  case Nil
  then show ?case by (simp split: prod.splits)
next
  case (Cons t ts1)
  obtain root dirs files where t: "t = (root, dirs, files)" by (cases t)
  show ?case unfolding t using Cons
    by (auto split: prod.splits option.splits)
qed

lemma walk_records_files_below:
  "wf_node fs \<Longrightarrow> dir_location fs t = Some p \<Longrightarrow> lookup fs p = Some n \<Longrightarrow>
   walk_records md5hex fs pk fl (walk_node t n)
     = (map (\<lambda>(q, d). \<lparr>rec_package = pk, rec_firstletter = fl, rec_filename = last q,
                        rec_md5 = md5hex d\<rparr>) (files_below n), None)"
proof (induction t n arbitrary: p rule: walk_node.induct)
  case (1 topdir c)
  then show ?case by simp
next
  case (2 topdir es)
  let ?mk = "\<lambda>(q, d). \<lparr>rec_package = pk, rec_firstletter = fl, rec_filename = last q,
                        rec_md5 = md5hex d\<rparr>"
  let ?cw = "\<lambda>e. if is_Dir (snd e) then walk_node (os_path_join topdir (fst e)) (snd e) else []"
  let ?cf = "\<lambda>e. if is_Dir (snd e)
                  then map (\<lambda>(q, d). (fst e # q, d)) (files_below (snd e)) else []"
  from "2.prems"(1,3) have wf: "wf_node (Dir es)" by (rule wf_node_lookup)
  have child: "walk_records md5hex fs pk fl (?cw e) = (map ?mk (?cf e), None)"
    if "e \<in> set es" for e
  proof (cases "is_Dir (snd e)")
    case False
    then show ?thesis by simp
  next
    case True
    obtain name m where e: "e = (name, m)" by (cases e)
    from wf_node_entry [OF wf] that e
    have m: "map_of es name = Some m" "valid_name name" by auto
    from "2.prems"(3) m(1) have lk: "lookup fs (p @ [name]) = Some m" by (simp add: lookup_child)
    with True e have "is_dir_at fs (p @ [name])"
      by (auto simp: is_dir_at_def dest: is_Dir_ex)
    with dir_location_join(1) [OF "2.prems"(2) m(2)]
    have dl: "dir_location fs (os_path_join topdir name) = Some (p @ [name])" by simp
    from "2.IH" [OF that True "2.prems"(1), of "p @ [name]"] dl lk e
    have "walk_records md5hex fs pk fl (walk_node (os_path_join topdir name) m)
            = (map ?mk (files_below m), None)"
      by simp
    moreover have "map ?mk (map (\<lambda>(q, d). (name # q, d)) (files_below m))
                     = map ?mk (files_below m)"
      by (auto dest: files_below_nonempty)
    ultimately show ?thesis using True e by simp
  qed
  have children: "set es' \<subseteq> set es \<Longrightarrow>
      walk_records md5hex fs pk fl (concat (map ?cw es'))
        = (map ?mk (concat (map ?cf es')), None)" for es'
  proof (induction es')
    case Nil
    then show ?case by simp
  next
    case (Cons e es')
    then have "e \<in> set es" and "set es' \<subseteq> set es" by simp_all
    from child [OF this(1)] Cons.IH [OF this(2)] show ?case
      by (simp only: list.map concat.simps walk_records_append map_append) simp
  qed
  let ?fe = "filter (\<lambda>e. \<not> is_Dir (snd e)) es"
  have "set ?fe \<subseteq> {e \<in> set es. \<not> is_Dir (snd e)}" by auto
  from read_files_eq [OF "2.prems"(1,2,3) this, of md5hex pk fl]
  have own: "read_files md5hex fs pk fl topdir (map fst ?fe)
               = (map ?mk (map (\<lambda>e. ([fst e], file_data (snd e))) ?fe), None)"
    by (simp add: comp_def)
  have "walk_records md5hex fs pk fl (walk_node topdir (Dir es))
          = (map ?mk (concat (map ?cf es)) @ map ?mk (map (\<lambda>e. ([fst e], file_data (snd e))) ?fe),
             None)"
    using children [of es] own
    by (simp only: walk_node.simps walk_records_append) simp
  then show ?case by simp
qed

lemma set_files_below:
  "wf_node n \<Longrightarrow> set (files_below n) = {(q, d). q \<noteq> [] \<and> lookup n q = Some (File d)}"
proof (induction n rule: files_below.induct)
  case (1 c)
  then show ?case by (auto simp: lookup_File)
next
  case (2 es)
  have ent: "map_of es x = Some m \<longleftrightarrow> (x, m) \<in> set es" for x m
    using "2.prems" by (auto simp: map_of_eq_Some_iff)
  show ?case
  proof (intro set_eqI iffI; clarify)
    fix q d assume "(q, d) \<in> set (files_below (Dir es))"
    then consider
        (child) e q' where "e \<in> set es" "is_Dir (snd e)" "(q', d) \<in> set (files_below (snd e))"
          "q = fst e # q'"
      | (own) e where "e \<in> set es" "\<not> is_Dir (snd e)" "q = [fst e]" "d = file_data (snd e)"
      by (auto split: if_splits)
    then show "q \<noteq> [] \<and> lookup (Dir es) q = Some (File d)"
    proof cases
      case child
      from "2.prems" child(1) have "wf_node (snd e)" by auto
      from "2.IH" [OF child(1,2) this] child(3)
      have "lookup (snd e) q' = Some (File d)" by auto
      moreover from child(1) have "map_of es (fst e) = Some (snd e)" by (simp add: ent)
      ultimately show ?thesis using child(4) by simp
    next
      case own
      from own(2) obtain c where "snd e = File c" by (auto dest: not_is_Dir)
      moreover from own(1) have "map_of es (fst e) = Some (snd e)" by (simp add: ent)
      ultimately show ?thesis using own(3,4) by simp
    qed
  next
    fix q d assume q: "q \<noteq> []" and l: "lookup (Dir es) q = Some (File d)"
    from q obtain x xs where qx: "q = x # xs" by (cases q) auto
    with l obtain m where m: "map_of es x = Some m" "lookup m xs = Some (File d)"
      by (auto split: option.splits)
    then have mem: "(x, m) \<in> set es" by (simp add: ent)
    show "(q, d) \<in> set (files_below (Dir es))"
    proof (cases "is_Dir m")
      case False
      then obtain c where c: "m = File c" by (auto dest: not_is_Dir)
      with m(2) have "xs = []" "c = d" by (auto simp: lookup_File split: if_splits)
      with mem c qx False show ?thesis by force
    next
      case True
      then obtain es' where "m = Dir es'" by (auto dest: is_Dir_ex)
      with m(2) have "xs \<noteq> []" by auto
      from "2.prems" mem have "wf_node m" by auto
      from "2.IH" [of "(x, m)"] mem True this
      have "set (files_below m) = {(q, d). q \<noteq> [] \<and> lookup m q = Some (File d)}" by simp
      with m(2) \<open>xs \<noteq> []\<close> have "(xs, d) \<in> set (files_below m)" by simp
      with mem True qx show ?thesis by force
    qed
  qed
qed

lemma map_fst_cons:
  "map fst (map (\<lambda>(q, d). (x # q, d)) xs) = map ((#) x) (map fst xs)"
  by (induction xs) auto

lemma distinct_files_below:
  "wf_node n \<Longrightarrow> distinct (map fst (files_below n))"
proof (induction n rule: files_below.induct)
  case (1 c)
  then show ?case by simp
next
  case (2 es)
  let ?cf = "\<lambda>e. map fst (if is_Dir (snd e)
                  then map (\<lambda>(q, d). (fst e # q, d)) (files_below (snd e)) else [])"
  let ?fe = "filter (\<lambda>e. \<not> is_Dir (snd e)) es"
  from "2.prems" have des: "distinct es" and dn: "distinct (map fst es)"
    by (simp_all add: distinct_map)
  have m1: "map fst (files_below (Dir es))
              = concat (map ?cf es) @ map (\<lambda>e. [fst e]) ?fe"
    by (simp add: map_concat comp_def)
  have d1: "distinct (concat (map ?cf es))"
  proof (rule distinct_concat_map [OF des])
    fix e assume e: "e \<in> set es"
    show "distinct (?cf e)"
    proof (cases "is_Dir (snd e)")
      case False
      then show ?thesis by simp
    next
      case True
      from "2.prems" e have "wf_node (snd e)" by auto
      from "2.IH" [OF e True this]
      have "distinct (map ((#) (fst e)) (map fst (files_below (snd e))))"
        by (subst distinct_map) (simp add: inj_on_def)
      with True show ?thesis by (simp only: if_True map_fst_cons)
    qed
  next
    fix e e' assume "e \<in> set es" "e' \<in> set es" "e \<noteq> e'"
    with dn have "fst e \<noteq> fst e'" by (auto simp: distinct_map inj_on_def)
    then show "set (?cf e) \<inter> set (?cf e') = {}" by (auto split: if_splits)
  qed
  have d2: "distinct (map (\<lambda>e. [fst e]) ?fe)"
  proof -
    define ns where "ns = map fst ?fe"
    from dn have "distinct ns" unfolding ns_def by (rule distinct_map_filter)
    then have "distinct (map (\<lambda>n. [n]) ns)" by (simp add: distinct_map inj_on_def)
    then show ?thesis unfolding ns_def by (simp add: comp_def)
  qed
  have d3: "set (concat (map ?cf es)) \<inter> set (map (\<lambda>e. [fst e]) ?fe) = {}"
    by (auto split: if_splits dest: files_below_nonempty)
  from d1 d2 d3 show ?case unfolding m1 by simp
qed

lemma os_walk_package_node:
  assumes "package_node prefix fs package = Some n"
  shows "os_path_isdir fs (package_dir prefix package)"
    and "os_walk fs (package_dir prefix package) = walk_node (package_dir prefix package) n"
    and "\<exists>p. dir_location fs (package_dir prefix package) = Some p \<and> lookup fs p = Some n"
proof -
  from assms obtain p where p: "dir_location fs (package_dir prefix package) = Some p"
      "lookup fs p = Some n"
    by (auto simp: package_node_def split: option.splits)
  then show "os_path_isdir fs (package_dir prefix package)"
    by (simp add: os_path_isdir_dir_location)
  from dir_location_resolve(1) [OF p(1)] p(2)
  show "os_walk fs (package_dir prefix package) = walk_node (package_dir prefix package) n"
    by (simp add: os_walk_def)
  from p show "\<exists>p. dir_location fs (package_dir prefix package) = Some p \<and> lookup fs p = Some n"
    by blast
qed

lemma list_files_package_node:
  assumes "wf_node fs" and "package \<noteq> []" and "package_node prefix fs package = Some n"
  shows "list_files md5hex prefix fs package = Some (file_records md5hex package n, None)"
proof -
  from os_walk_package_node [OF assms(3)] obtain p where
      isdir: "os_path_isdir fs (package_dir prefix package)"
    and walk: "os_walk fs (package_dir prefix package) = walk_node (package_dir prefix package) n"
    and p: "dir_location fs (package_dir prefix package) = Some p" "lookup fs p = Some n"
    by blast
  from list_files_exact [OF assms(2) isdir, of md5hex]
       walk_records_files_below [OF assms(1) p, of md5hex package "take 1 package"]
  show ?thesis by (simp add: walk file_records_def)
qed

lemma wf_package_node:
  assumes "wf_node fs" and "package_node prefix fs package = Some n"
  shows "wf_node n"
proof -
  from os_walk_package_node(3) [OF assms(2)] obtain p where "lookup fs p = Some n" by blast
  with assms(1) show ?thesis by (rule wf_node_lookup)
qed

text \<open>
  When the directory of the requested name does not exist and the first package of
  that lower-cased name has its directory in the shard of another letter,
  \<open>list_files\<close> calls itself with the name of that package, again and again.
\<close>

lemma list_files_Some_isdir_aux:
  assumes "list_files md5hex prefix fs package = Some y"
  shows "\<not> (package \<noteq> [] \<and> \<not> os_path_isdir fs (package_dir prefix package)
      \<and> find (\<lambda>mp. lower mp = lower package) (list_packages prefix fs) = Some package)"
proof (rule list_files.raw_induct
        [where P = "\<lambda>md5hex prefix fs package y.
           \<not> (package \<noteq> [] \<and> \<not> os_path_isdir fs (package_dir prefix package)
              \<and> find (\<lambda>mp. lower mp = lower package) (list_packages prefix fs) = Some package)",
         OF _ assms])
  fix lf :: "(bytes \<Rightarrow> string) \<Rightarrow> string \<Rightarrow> node \<Rightarrow> string \<Rightarrow> (file_record list \<times> error option) option"
  fix m p f pk and z :: "file_record list \<times> error option"
  assume IH: "\<And>a b c d y. lf a b c d = Some y \<Longrightarrow>
           \<not> (d \<noteq> [] \<and> \<not> os_path_isdir c (package_dir b d)
              \<and> find (\<lambda>mp. lower mp = lower d) (list_packages b c) = Some d)"
  assume body: "(case pk of [] \<Rightarrow> Some ([], Some IndexError)
      | a # rest \<Rightarrow>
          if \<not> os_path_isdir f (os_path_join p (''packages/'' @ [a] @ ''/'' @ pk))
          then case find (\<lambda>my_package. lower my_package = lower pk) (list_packages p f) of
               None \<Rightarrow> Some (walk_records m f pk [a]
                              (os_walk f (os_path_join p (''packages/'' @ [a] @ ''/'' @ pk))))
               | Some my_package \<Rightarrow> lf m p f my_package
          else Some (walk_records m f pk [a]
                       (os_walk f (os_path_join p (''packages/'' @ [a] @ ''/'' @ pk))))) = Some z"
  show "\<not> (pk \<noteq> [] \<and> \<not> os_path_isdir f (package_dir p pk)
          \<and> find (\<lambda>mp. lower mp = lower pk) (list_packages p f) = Some pk)"
  proof
    assume bad: "pk \<noteq> [] \<and> \<not> os_path_isdir f (package_dir p pk)
          \<and> find (\<lambda>mp. lower mp = lower pk) (list_packages p f) = Some pk"
    then obtain a rest where pk: "pk = a # rest" by (cases pk) auto
    from bad body have "lf m p f pk = Some z" by (simp add: pk package_dir_def)
    from IH [OF this] bad show False by simp
  qed
qed

lemma list_files_wrong_shard:
  assumes "package \<noteq> []" and "\<not> os_path_isdir fs (package_dir prefix package)"
    and "find (\<lambda>mp. lower mp = lower package) (list_packages prefix fs) = Some mp"
    and "mp \<noteq> []" and "\<not> os_path_isdir fs (package_dir prefix mp)"
  shows "list_files md5hex prefix fs package = None"
proof -
  from assms(3) have "lower mp = lower package" by (auto dest: find_Some_prop)
  with assms(3)
  have self: "find (\<lambda>mp'. lower mp' = lower mp) (list_packages prefix fs) = Some mp"
    by simp
  have "list_files md5hex prefix fs mp = None"
  proof (cases "list_files md5hex prefix fs mp")
    case None
    then show ?thesis .
  next
    case (Some y)
    from list_files_Some_isdir_aux [OF Some] assms(4,5) self show ?thesis by simp
  qed
  with list_files_fished [OF assms(1-3), of md5hex] show ?thesis by simp
qed

text \<open>
  Claim C7.  On a store within the limits, for a non-empty package name without NUL
  byte whose own directory, if it exists, is within the limits: \<open>list_files\<close>
  returns a sequence of records and raises nothing, provided that, when the
  directory of the requested name does not exist, the first package that
  \<open>list_packages\<close> enumerates under the lower-cased name of the request has its
  directory in the shard of its own first letter; when that package has not, the
  call does not return.  When the package directory does not exist and
  \<open>list_packages\<close> enumerates no package with the lower-cased name of the request,
  the sequence is empty; when the package directory exists, the sequence has one
  record for each regular file below it.
\<close>

theorem list_files_returns:
  assumes "store_ok prefix fs" and "package \<noteq> []" and "\<not> has_nul package"
    and "tree_within_limits fs (package_dir prefix package)"
  shows "((\<forall>mp. \<not> os_path_isdir fs (package_dir prefix package)
             \<and> find (\<lambda>mp. lower mp = lower package) (list_packages prefix fs) = Some mp
             \<longrightarrow> os_path_isdir fs (package_dir prefix mp))
          \<longrightarrow> (\<exists>recs. list_files md5hex prefix fs package = Some (recs, None)))
       \<and> (\<forall>mp. \<not> os_path_isdir fs (package_dir prefix package)
             \<and> find (\<lambda>mp. lower mp = lower package) (list_packages prefix fs) = Some mp
             \<and> \<not> os_path_isdir fs (package_dir prefix mp)
          \<longrightarrow> list_files md5hex prefix fs package = None)
       \<and> (\<not> os_path_isdir fs (package_dir prefix package)
            \<and> (\<forall>mp \<in> set (list_packages prefix fs). lower mp \<noteq> lower package)
          \<longrightarrow> list_files md5hex prefix fs package = Some ([], None))
       \<and> (\<forall>n. package_node prefix fs package = Some n
          \<longrightarrow> list_files md5hex prefix fs package = Some (file_records md5hex package n, None))"
proof -
  from assms(1) have wf: "wf_node fs" and nm: "\<not> has_magic prefix"
    by (simp_all add: store_ok_def)
  have ne: "mp \<noteq> []" if "mp \<in> set (list_packages prefix fs)" for mp
    using list_packages_valid(1) [OF wf nm that] by (auto simp: valid_name_def)
  have exact: "\<exists>recs. list_files md5hex prefix fs p = Some (recs, None)"
    if "p \<noteq> []" "os_path_isdir fs (package_dir prefix p)" for p
    using list_files_exact [OF that] os_walk_records_ok(1) [OF wf]
    by (metis prod.collapse)
  have 1: "\<exists>recs. list_files md5hex prefix fs package = Some (recs, None)"
    if h: "\<forall>mp. \<not> os_path_isdir fs (package_dir prefix package)
             \<and> find (\<lambda>mp. lower mp = lower package) (list_packages prefix fs) = Some mp
             \<longrightarrow> os_path_isdir fs (package_dir prefix mp)"
  proof (cases "os_path_isdir fs (package_dir prefix package)")
    case True
    with assms(2) show ?thesis by (rule exact)
  next
    case False
    show ?thesis
    proof (cases "find (\<lambda>my_package. lower my_package = lower package) (list_packages prefix fs)")
      case None
      from list_files_absent [OF assms(2) False None] show ?thesis by simp
    next
      case (Some mp)
      then have "mp \<in> set (list_packages prefix fs)" by (auto dest: find_Some_prop)
      then have "mp \<noteq> []" by (rule ne)
      moreover from h False Some have "os_path_isdir fs (package_dir prefix mp)" by blast
      ultimately have "\<exists>recs. list_files md5hex prefix fs mp = Some (recs, None)" by (rule exact)
      with list_files_fished [OF assms(2) False Some, of md5hex] show ?thesis by simp
    qed
  qed
  have 2: "list_files md5hex prefix fs package = None"
    if "\<not> os_path_isdir fs (package_dir prefix package)"
      "find (\<lambda>mp. lower mp = lower package) (list_packages prefix fs) = Some mp"
      "\<not> os_path_isdir fs (package_dir prefix mp)" for mp
  proof -
    from that(2) have "mp \<in> set (list_packages prefix fs)" by (auto dest: find_Some_prop)
    then have "mp \<noteq> []" by (rule ne)
    from list_files_wrong_shard [OF assms(2) that(1,2) this that(3)] show ?thesis .
  qed
  have 3: "list_files md5hex prefix fs package = Some ([], None)"
    if "\<not> os_path_isdir fs (package_dir prefix package)"
      "\<forall>mp \<in> set (list_packages prefix fs). lower mp \<noteq> lower package"
  proof -
    from that(2)
    have "find (\<lambda>my_package. lower my_package = lower package) (list_packages prefix fs) = None"
      by (simp add: find_None_iff)
    from list_files_absent [OF assms(2) that(1) this] show ?thesis .
  qed
  from 1 2 3 list_files_package_node [OF wf assms(2), of prefix _ md5hex]
  show ?thesis by blast
qed

theorem list_files_returns_witness:
  "store_ok ''/srv'' store_django \<and> ''nosuchpkg'' \<noteq> [] \<and> \<not> has_nul ''nosuchpkg''
   \<and> list_files (\<lambda>data. data) ''/srv'' store_django ''nosuchpkg'' = Some ([], None)
   \<and> list_files (\<lambda>data. data) ''/srv'' store_django ''Django''
       = Some ([\<lparr>rec_package = ''Django'', rec_firstletter = ''D'',
                  rec_filename = ''Django-1.0.tar.gz'', rec_md5 = ''abc''\<rparr>], None)
   \<and> store_ok ''/srv'' store_unsorted
   \<and> find (\<lambda>mp. lower mp = lower ''ZETA'') (list_packages ''/srv'' store_unsorted) = Some ''zeta''
   \<and> list_files (\<lambda>data. data) ''/srv'' store_unsorted ''ZETA'' = None"
proof -
  have ok: "store_ok ''/srv'' store_django" by code_simp
  have ne: "''nosuchpkg'' \<noteq> []" "''Django'' \<noteq> []" "''ZETA'' \<noteq> []" by simp_all
  have nn: "\<not> has_nul ''nosuchpkg''" "\<not> has_nul ''Django''" "\<not> has_nul ''ZETA''" by code_simp+
  have tl: "tree_within_limits store_django (package_dir ''/srv'' ''nosuchpkg'')"
    "tree_within_limits store_django (package_dir ''/srv'' ''Django'')"
    "tree_within_limits store_unsorted (package_dir ''/srv'' ''ZETA'')"
    by code_simp+
  have lp: "list_packages ''/srv'' store_django = [''Django'']" by code_simp
  have lo: "lower ''Django'' \<noteq> lower ''nosuchpkg''" by code_simp
  have nd: "\<not> os_path_isdir store_django (package_dir ''/srv'' ''nosuchpkg'')" by code_simp
  have n1: "package_node ''/srv'' store_django ''Django''
              = Some (Dir [(''Django-1.0.tar.gz'', File ''abc'')])"
    by code_simp
  have r1: "file_records (\<lambda>data. data) ''Django'' (Dir [(''Django-1.0.tar.gz'', File ''abc'')])
              = [\<lparr>rec_package = ''Django'', rec_firstletter = ''D'',
                  rec_filename = ''Django-1.0.tar.gz'', rec_md5 = ''abc''\<rparr>]"
    by (simp add: file_records_def)
  have ok3: "store_ok ''/srv'' store_unsorted" by code_simp
  have f3: "find (\<lambda>mp. lower mp = lower ''ZETA'') (list_packages ''/srv'' store_unsorted)
              = Some ''zeta''"
    by code_simp
  have nd3: "\<not> os_path_isdir store_unsorted (package_dir ''/srv'' ''ZETA'')"
    "\<not> os_path_isdir store_unsorted (package_dir ''/srv'' ''zeta'')"
    by code_simp+
  from list_files_returns [OF ok ne(1) nn(1) tl(1), of "\<lambda>data. data"]
       list_files_returns [OF ok ne(2) nn(2) tl(2), of "\<lambda>data. data"]
       list_files_returns [OF ok3 ne(3) nn(3) tl(3), of "\<lambda>data. data"]
       nd lo lp ok nn n1 r1 ok3 f3 nd3
  show ?thesis by simp
qed

theorem list_files_empty_package_counterexample:
  "list_files (\<lambda>data. []) ''/srv'' store_django [] = Some ([], Some IndexError)"
  by code_simp

subsection \<open>Listing the packages\<close>




text \<open>
  A directory in the shard of another letter can come from \<open>add_file\<close> itself,
  when the file name climbs out of the package directory.
\<close>

lemma add_file_reaches_wrong_shard:
  "add_file ''/srv'' (Dir []) ''a'' ''../zeta/f'' (Str ''x'')
     = (Inr (), Dir [(''srv'', Dir [(''packages'', Dir
          [(''a'', Dir [(''a'', Dir []), (''zeta'', Dir [(''f'', File ''x'')])])])])])"
  by code_simp

subsection \<open>Lower case and names\<close>

lemma lower_char_fixed:
  assumes "\<not> (CHR ''a'' \<le> d \<and> d \<le> CHR ''z'')" and "\<not> (CHR ''A'' \<le> d \<and> d \<le> CHR ''Z'')"
  shows "lower_char c = d \<longleftrightarrow> c = d"
proof (cases "CHR ''A'' \<le> c \<and> c \<le> CHR ''Z''")
  case False
  then show ?thesis by (auto simp: lower_char_def)
next
  case True
  then have r: "65 \<le> (of_char c :: nat)" "(of_char c :: nat) \<le> 90"
    by (simp_all add: less_eq_char_def)
  then have "of_char (char_of (of_char c + 32 :: nat) :: char) = (of_char c + 32 :: nat)"
    by (simp add: of_char_of)
  with r have l: "97 \<le> (of_char (lower_char c) :: nat)" "(of_char (lower_char c) :: nat) \<le> 122"
    using True by (simp_all add: lower_char_def)
  have "lower_char c \<noteq> d"
  proof
    assume "lower_char c = d"
    with l have "CHR ''a'' \<le> d \<and> d \<le> CHR ''z''" by (simp add: less_eq_char_def)
    with assms(1) show False by simp
  qed
  moreover have "c \<noteq> d"
  proof
    assume "c = d"
    with True assms(2) show False by simp
  qed
  ultimately show ?thesis by simp
qed

lemma lower_char_slash [simp]: "lower_char c = CHR ''/'' \<longleftrightarrow> c = CHR ''/''"
  by (rule lower_char_fixed) simp_all

lemma lower_char_dot [simp]: "lower_char c = CHR ''.'' \<longleftrightarrow> c = CHR ''.''"
  by (rule lower_char_fixed) simp_all

lemma lower_Nil [simp]: "lower s = [] \<longleftrightarrow> s = []"
  by (simp add: lower_def)

lemma slash_in_lower [simp]: "CHR ''/'' \<in> set (lower s) \<longleftrightarrow> CHR ''/'' \<in> set s"
proof -
  have "(CHR ''/'' = lower_char x) = (x = CHR ''/'')" for x
    by (metis lower_char_slash)
  then show ?thesis by (auto simp: lower_def image_iff)
qed

lemma lower_eq_dot [simp]: "lower s = ''.'' \<longleftrightarrow> s = ''.''"
  by (cases s; cases "tl s") (auto simp: lower_def)

lemma lower_eq_dotdot [simp]: "lower s = ''..'' \<longleftrightarrow> s = ''..''"
  by (cases s; cases "tl s"; cases "tl (tl s)") (auto simp: lower_def)

lemma take1_lower [simp]: "take 1 (lower s) = ''.'' \<longleftrightarrow> take 1 s = ''.''"
  by (cases s) (auto simp: lower_def)

lemma valid_name_lower: "valid_name (lower s) = valid_name s"
  by (simp add: valid_name_def)

lemma lower_eq_valid:
  assumes "lower a = lower b" and "valid_name a" and "take 1 a \<noteq> ''.''"
  shows "valid_name b" and "take 1 b \<noteq> ''.''"
proof -
  from assms(1,2) show "valid_name b" by (metis valid_name_lower)
  from assms(1,3) show "take 1 b \<noteq> ''.''" by (metis take1_lower)
qed

lemma find_filter:
  "find P xs = (case filter P xs of [] \<Rightarrow> None | x # ys \<Rightarrow> Some x)"
  by (induction xs) simp_all

lemma package_dir_listed:
  assumes "wf_node fs" and "\<not> has_magic prefix"
    and "valid_name n" and "take 1 n \<noteq> ''.''" and "os_path_isdir fs (package_dir prefix n)"
  shows "n \<in> set (list_packages prefix fs)"
proof -
  from assms(3) obtain c cs where n: "n = c # cs" and c: "c \<noteq> CHR ''/''"
    by (cases n) (auto simp: valid_name_def)
  with assms(4) have "valid_name (take 1 n)" "length (take 1 n) = 1"
    by (simp_all add: valid_name_def)
  with assms(3-5) have "(take 1 n, n) \<in> shard_dirs prefix fs"
    by (simp add: shard_dirs_def package_dir_eq)
  with assms(4) show ?thesis
    by (force simp: set_list_packages [OF assms(1,2)])
qed

subsection \<open>Listing under another spelling\<close>

text \<open>
  Claim C4.  On a store within the limits, let \<open>package\<close> be a package whose
  directory exists in the shard of its first letter.  When it is the only package
  that \<open>list_packages\<close> enumerates under the lower-cased name of the request, or
  when the directory of the requested name does not exist and it is the first such
  package in the order of \<open>list_packages\<close>, then \<open>list_files\<close> for the request
  yields what \<open>list_files\<close> for \<open>package\<close> yields: one record for each regular file
  below the directory of \<open>package\<close>, with the name \<open>package\<close>, its first letter,
  the last component of the file's location and the checksum of its content.  The
  listing is that of one package, not a merge.  A package whose name starts with a
  dot is not enumerated by \<open>list_packages\<close>; for such a package the claim fails.
\<close>

theorem list_files_case_insensitive:
  assumes env: "store_ok prefix fs"
    and req: "\<not> has_nul package'"
    and node: "package_node prefix fs package = Some n"
    and match: "filter (\<lambda>mp. lower mp = lower package') (list_packages prefix fs) = [package]
       \<or> (\<not> os_path_isdir fs (package_dir prefix package')
          \<and> find (\<lambda>mp. lower mp = lower package') (list_packages prefix fs) = Some package)"
  shows "list_files md5hex prefix fs package' = Some (file_records md5hex package n, None)
       \<and> list_files md5hex prefix fs package = Some (file_records md5hex package n, None)
       \<and> set (files_below n) = {(q, d). q \<noteq> [] \<and> lookup n q = Some (File d)}
       \<and> distinct (map fst (files_below n))"
proof -
  from env have wf: "wf_node fs" and nm: "\<not> has_magic prefix" by (simp_all add: store_ok_def)
  from match have f: "find (\<lambda>mp. lower mp = lower package') (list_packages prefix fs) = Some package"
    by (auto simp: find_filter)
  then have mem: "package \<in> set (list_packages prefix fs)" and lo: "lower package = lower package'"
    by (auto dest: find_Some_prop)
  from list_packages_valid [OF wf nm mem] have v: "valid_name package" "take 1 package \<noteq> ''.''" .
  from lower_eq_valid [OF lo v] have v': "valid_name package'" "take 1 package' \<noteq> ''.''" .
  from v v' have ne: "package \<noteq> []" "package' \<noteq> []" by (auto simp: valid_name_def)
  have own: "list_files md5hex prefix fs package = Some (file_records md5hex package n, None)"
    by (rule list_files_package_node [OF wf ne(1) node])
  have eq: "list_files md5hex prefix fs package' = list_files md5hex prefix fs package"
  proof (cases "os_path_isdir fs (package_dir prefix package')")
    case True
    with match have only: "filter (\<lambda>mp. lower mp = lower package') (list_packages prefix fs)
                             = [package]"
      by simp
    from package_dir_listed [OF wf nm v' True]
    have "package' \<in> set (filter (\<lambda>mp. lower mp = lower package') (list_packages prefix fs))"
      by simp
    with only show ?thesis by simp
  next
    case False
    from list_files_fished [OF ne(2) False f] show ?thesis .
  qed
  from wf_package_node [OF wf node] have "wf_node n" .
  from set_files_below [OF this] distinct_files_below [OF this] own eq show ?thesis by simp
qed

theorem list_files_case_insensitive_witness:
  "store_ok ''/srv'' store_django \<and> \<not> has_nul ''DJANGO''
   \<and> filter (\<lambda>mp. lower mp = lower ''DJANGO'') (list_packages ''/srv'' store_django) = [''Django'']
   \<and> list_files (\<lambda>data. data) ''/srv'' store_django ''DJANGO''
       = Some ([\<lparr>rec_package = ''Django'', rec_firstletter = ''D'',
                  rec_filename = ''Django-1.0.tar.gz'', rec_md5 = ''abc''\<rparr>], None)
   \<and> store_ok ''/srv'' store_variants
   \<and> list_packages ''/srv'' store_variants = [''Django'', ''django'']
   \<and> list_files (\<lambda>data. data) ''/srv'' store_variants ''DJANGO''
       = Some ([\<lparr>rec_package = ''Django'', rec_firstletter = ''D'',
                  rec_filename = ''File.txt'', rec_md5 = ''upper''\<rparr>], None)"
proof -
  have ok1: "store_ok ''/srv'' store_django" by code_simp
  have ok2: "store_ok ''/srv'' store_variants" by code_simp
  have nn: "\<not> has_nul ''DJANGO''" by code_simp
  have only: "filter (\<lambda>mp. lower mp = lower ''DJANGO'') (list_packages ''/srv'' store_django)
                = [''Django'']"
    by code_simp
  have n1: "package_node ''/srv'' store_django ''Django''
              = Some (Dir [(''Django-1.0.tar.gz'', File ''abc'')])"
    by code_simp
  have lp: "list_packages ''/srv'' store_variants = [''Django'', ''django'']" by code_simp
  have nd: "\<not> os_path_isdir store_variants (package_dir ''/srv'' ''DJANGO'')" by code_simp
  have first: "find (\<lambda>mp. lower mp = lower ''DJANGO'') (list_packages ''/srv'' store_variants)
                 = Some ''Django''"
    by code_simp
  have n2: "package_node ''/srv'' store_variants ''Django''
              = Some (Dir [(''File.txt'', File ''upper'')])"
    by code_simp
  have r1: "file_records (\<lambda>data. data) ''Django'' (Dir [(''Django-1.0.tar.gz'', File ''abc'')])
              = [\<lparr>rec_package = ''Django'', rec_firstletter = ''D'',
                  rec_filename = ''Django-1.0.tar.gz'', rec_md5 = ''abc''\<rparr>]"
    by (simp add: file_records_def)
  have r2: "file_records (\<lambda>data. data) ''Django'' (Dir [(''File.txt'', File ''upper'')])
              = [\<lparr>rec_package = ''Django'', rec_firstletter = ''D'',
                  rec_filename = ''File.txt'', rec_md5 = ''upper''\<rparr>]"
    by (simp add: file_records_def)
  from list_files_case_insensitive [OF ok1 nn n1, of "\<lambda>data. data"] only
       list_files_case_insensitive [OF ok2 nn n2, of "\<lambda>data. data"] nd first
       ok1 ok2 nn lp r1 r2
  show ?thesis by simp
qed

theorem list_files_hidden_package_counterexample:
  "add_file ''/srv'' (Dir []) ''.Foo'' ''x.txt'' (Str ''abc'') = (Inr (), store_hidden)
   \<and> lower ''.foo'' = lower ''.Foo''
   \<and> list_files (\<lambda>data. data) ''/srv'' store_hidden ''.Foo''
       = Some ([\<lparr>rec_package = ''.Foo'', rec_firstletter = ''.'',
                  rec_filename = ''x.txt'', rec_md5 = ''abc''\<rparr>], None)
   \<and> list_files (\<lambda>data. data) ''/srv'' store_hidden ''.foo'' = Some ([], None)"
  by code_simp

subsection \<open>Reading under another spelling\<close>

lemma fish_first_match:
  assumes "list_files md5hex prefix fs package = Some (recs, err)"
    and "find (\<lambda>fileinfo. lower (rec_filename fileinfo) = lower filename') recs = Some r"
    and "lower package = lower package'"
  shows "(\<forall>mp \<in> set pre. lower mp = lower package' \<longrightarrow>
            (\<exists>recs. list_files md5hex prefix fs mp = Some (recs, None)
               \<and> (\<forall>r \<in> set recs. lower (rec_filename r) \<noteq> lower filename'))) \<Longrightarrow>
         fish md5hex prefix fs package' filename' (pre @ package # post)
           = Some (Inr (Some (package, rec_filename r)))"
proof (induction pre)
  case Nil
  with assms show ?case by simp
next
  case (Cons a pre)
  show ?case
  proof (cases "lower a = lower package'")
    case False
    with Cons show ?thesis by (simp add: eq_commute [of "lower package'"])
  next
    case True
    with Cons.prems obtain recs' where l: "list_files md5hex prefix fs a = Some (recs', None)"
      and n: "\<forall>r \<in> set recs'. lower (rec_filename r) \<noteq> lower filename'"
      by auto
    from n have "find (\<lambda>fileinfo. lower (rec_filename fileinfo) = lower filename') recs' = None"
      by (simp add: find_None_iff)
    with Cons True l show ?thesis by simp
  qed
qed

text \<open>
  Claim C3.  On a store within the limits, for a request without NUL byte whose own
  path does not open: when \<open>package\<close> is the first package, in the order of
  \<open>list_packages\<close>, that has the lower-cased name of the requested package and lists
  a file with the lower-cased name of the requested file (the packages of that
  lower-cased name before it list, without error, no such file), \<open>filename\<close> is the
  first such file in its listing, and that file opens at its own path, then
  \<open>get_file\<close> for the request returns the bytes of that file, the same as
  \<open>get_file\<close> for the stored names.
\<close>

theorem get_file_case_insensitive:
  assumes env: "store_ok prefix fs"
    and req: "\<not> has_nul package'" "\<not> has_nul filename'"
    and path': "get_file_path prefix package' filename' = Inr path'"
    and miss: "open_rb fs path' = Inl IOError"
    and pkgs: "list_packages prefix fs = pre @ package # post"
    and lo: "lower package = lower package'"
    and earlier: "\<forall>mp \<in> set pre. lower mp = lower package' \<longrightarrow>
            (\<exists>recs. list_files md5hex prefix fs mp = Some (recs, None)
               \<and> (\<forall>r \<in> set recs. lower (rec_filename r) \<noteq> lower filename'))"
    and listed: "list_files md5hex prefix fs package = Some (recs, err)"
    and first: "find (\<lambda>r. lower (rec_filename r) = lower filename') recs = Some r"
      "rec_filename r = filename"
    and path: "get_file_path prefix package filename = Inr path"
    and stored: "open_rb fs path = Inr data"
  shows "get_file md5hex prefix fs package' filename' = Some (Inr data)
       \<and> get_file md5hex prefix fs package filename = Some (Inr data)"
proof -
  have direct: "get_file md5hex prefix fs package filename = Some (Inr data)"
    using path stored by (subst get_file.simps) simp
  from fish_first_match [OF listed first(1) lo earlier, of post] pkgs first(2)
  have "fish md5hex prefix fs package' filename' (list_packages prefix fs)
          = Some (Inr (Some (package, filename)))"
    by simp
  with path' miss direct show ?thesis by (subst get_file.simps) simp
qed

theorem get_file_case_insensitive_witness:
  "store_ok ''/srv'' store_shadow
   \<and> list_packages ''/srv'' store_shadow = [''DJANGO'', ''Django'']
   \<and> open_rb store_shadow ''/srv/packages/d/django/b.txt'' = Inl IOError
   \<and> get_file (\<lambda>data. data) ''/srv'' store_shadow ''django'' ''b.txt'' = Some (Inr ''B'')
   \<and> get_file (\<lambda>data. data) ''/srv'' store_shadow ''Django'' ''B.txt'' = Some (Inr ''B'')
   \<and> store_ok ''/srv'' store_django
   \<and> get_file (\<lambda>data. data) ''/srv'' store_django ''django'' ''django-1.0.tar.gz''
       = Some (Inr ''abc'')
   \<and> get_file (\<lambda>data. data) ''/srv'' store_django ''Django'' ''Django-1.0.tar.gz''
       = Some (Inr ''abc'')"
proof -
  have ok: "store_ok ''/srv'' store_shadow" by code_simp
  have nn: "\<not> has_nul ''django''" "\<not> has_nul ''b.txt''" by code_simp+
  have p': "get_file_path ''/srv'' ''django'' ''b.txt'' = Inr ''/srv/packages/d/django/b.txt''"
    by code_simp
  have miss: "open_rb store_shadow ''/srv/packages/d/django/b.txt'' = Inl IOError" by code_simp
  have lp: "list_packages ''/srv'' store_shadow = [''DJANGO''] @ ''Django'' # []" by code_simp
  have lo: "lower ''Django'' = lower ''django''" by code_simp
  have l1: "list_files (\<lambda>data. data) ''/srv'' store_shadow ''DJANGO''
              = Some ([\<lparr>rec_package = ''DJANGO'', rec_firstletter = ''D'',
                        rec_filename = ''a.txt'', rec_md5 = ''A''\<rparr>], None)"
    by code_simp
  have n1: "lower ''a.txt'' \<noteq> lower ''b.txt''" by code_simp
  have earlier: "\<forall>mp \<in> set [''DJANGO'']. lower mp = lower ''django'' \<longrightarrow>
            (\<exists>recs. list_files (\<lambda>data. data) ''/srv'' store_shadow mp = Some (recs, None)
               \<and> (\<forall>r \<in> set recs. lower (rec_filename r) \<noteq> lower ''b.txt''))"
    using l1 n1 by simp
  have l2: "list_files (\<lambda>data. data) ''/srv'' store_shadow ''Django''
              = Some ([\<lparr>rec_package = ''Django'', rec_firstletter = ''D'',
                        rec_filename = ''B.txt'', rec_md5 = ''B''\<rparr>], None)"
    by code_simp
  have f: "find (\<lambda>r. lower (rec_filename r) = lower ''b.txt'')
             [\<lparr>rec_package = ''Django'', rec_firstletter = ''D'',
               rec_filename = ''B.txt'', rec_md5 = ''B''\<rparr>]
           = Some \<lparr>rec_package = ''Django'', rec_firstletter = ''D'',
                    rec_filename = ''B.txt'', rec_md5 = ''B''\<rparr>"
    by code_simp
  have p: "get_file_path ''/srv'' ''Django'' ''B.txt'' = Inr ''/srv/packages/D/Django/B.txt''"
    by code_simp
  have s: "open_rb store_shadow ''/srv/packages/D/Django/B.txt'' = Inr ''B''" by code_simp
  have ok2: "store_ok ''/srv'' store_django" by code_simp
  have nn2: "\<not> has_nul ''django-1.0.tar.gz''" by code_simp
  have q': "get_file_path ''/srv'' ''django'' ''django-1.0.tar.gz''
              = Inr ''/srv/packages/d/django/django-1.0.tar.gz''"
    by code_simp
  have miss2: "open_rb store_django ''/srv/packages/d/django/django-1.0.tar.gz'' = Inl IOError"
    by code_simp
  have lp2: "list_packages ''/srv'' store_django = [] @ ''Django'' # []" by code_simp
  have none: "\<forall>mp \<in> set []. lower mp = lower ''django'' \<longrightarrow>
            (\<exists>recs. list_files (\<lambda>data. data) ''/srv'' store_django mp = Some (recs, None)
               \<and> (\<forall>r \<in> set recs. lower (rec_filename r) \<noteq> lower ''django-1.0.tar.gz''))"
    by simp
  have l3: "list_files (\<lambda>data. data) ''/srv'' store_django ''Django''
              = Some ([\<lparr>rec_package = ''Django'', rec_firstletter = ''D'',
                        rec_filename = ''Django-1.0.tar.gz'', rec_md5 = ''abc''\<rparr>], None)"
    by code_simp
  have f2: "find (\<lambda>r. lower (rec_filename r) = lower ''django-1.0.tar.gz'')
             [\<lparr>rec_package = ''Django'', rec_firstletter = ''D'',
               rec_filename = ''Django-1.0.tar.gz'', rec_md5 = ''abc''\<rparr>]
           = Some \<lparr>rec_package = ''Django'', rec_firstletter = ''D'',
                    rec_filename = ''Django-1.0.tar.gz'', rec_md5 = ''abc''\<rparr>"
    by code_simp
  have q: "get_file_path ''/srv'' ''Django'' ''Django-1.0.tar.gz''
             = Inr ''/srv/packages/D/Django/Django-1.0.tar.gz''"
    by code_simp
  have s2: "open_rb store_django ''/srv/packages/D/Django/Django-1.0.tar.gz'' = Inr ''abc''"
    by code_simp
  from get_file_case_insensitive [OF ok nn p' miss lp lo earlier l2 f _ p s]
       get_file_case_insensitive [OF ok2 nn(1) nn2 q' miss2 lp2 lo none l3 f2 _ q s2]
       ok ok2 lp miss
  show ?thesis by simp
qed

theorem get_file_case_variants_counterexample:
  "lower ''django'' = lower ''Django'' \<and> lower ''file.txt'' = lower ''File.txt''
   \<and> get_file (\<lambda>data. []) ''/srv'' store_variants ''Django'' ''File.txt'' = Some (Inr ''upper'')
   \<and> get_file (\<lambda>data. []) ''/srv'' store_variants ''django'' ''file.txt'' = Some (Inr ''lower'')
   \<and> get_file (\<lambda>data. []) ''/srv'' store_variants ''django'' ''file.txt''
       \<noteq> get_file (\<lambda>data. []) ''/srv'' store_variants ''Django'' ''File.txt''"
  by code_simp

subsection \<open>A package directory in the shard of another letter\<close>

text \<open>
  In \<open>store_unsorted\<close> the directory \<open>zeta\<close> sits in the shard \<open>a\<close>.  Its own
  directory \<open>packages/z/zeta\<close> does not exist, so \<open>list_files\<close> searches the stored
  packages, finds \<open>zeta\<close>, and calls itself with the same name: it does not return.
\<close>

lemma list_files_wrong_shard_diverges:
  "list_files md5hex ''/srv'' store_unsorted ''zeta'' = None"
proof (cases "list_files md5hex ''/srv'' store_unsorted ''zeta''")
  case None
  then show ?thesis .
next
  case (Some y)
  have "\<not> os_path_isdir store_unsorted (package_dir ''/srv'' ''zeta'')"
    by code_simp
  moreover have "find (\<lambda>mp. lower mp = lower ''zeta'') (list_packages ''/srv'' store_unsorted)
                   = Some ''zeta''"
    by code_simp
  ultimately show ?thesis using list_files_Some_isdir_aux [OF Some] by simp
qed

end
